theory Spec2Isabelle
  imports
    Main
    "HOL-Library.Word"
    "HOL-Library.Multiset"
    "HOL-Library.Char_ord"
    "HOL-Library.List_Lexorder"
    "HOL-Library.Product_Lexorder"
begin

section \<open>The revalidation queue (queue.go)\<close>

text \<open>
  The queue of \<^verbatim>\<open>queue.go\<close> is a slice of pointers to \<^verbatim>\<open>queueItem\<close> structs, kept
  in heap order by Go's \<^verbatim>\<open>container/heap\<close>, together with a map from route path to
  the same pointers. The items are shared between slice and map and are mutated in
  place, so the model keeps an explicit store: \<open>mem\<close> maps an address to the struct
  stored there, and \<open>nxt\<close> is the next address that \<^verbatim>\<open>&queueItem{...}\<close> hands out.
  \<^verbatim>\<open>uint64\<close> is a 64-bit word (\<open>+\<close> wraps), Go strings are byte lists compared
  lexicographically byte by byte, the mutex is the atomicity of one function call.
\<close>

type_synonym uint64 = "64 word"
type_synonym addr = nat

record queueItem =
  priority :: uint64
  routePath :: string
  index :: int

record queue =
  currentPriority :: uint64
  q :: "addr list"
  pathIdx :: "string \<rightharpoonup> addr"
  mem :: "addr \<Rightarrow> queueItem"
  nxt :: addr

datatype panic = IndexOutOfRange | SendOnClosedChannel | CloseOfClosedChannel

subsection \<open>The methods of \<^verbatim>\<open>queueItems\<close> (sort.Interface, Push, Pop)\<close>

definition Len :: "queue \<Rightarrow> nat" where
  "Len s = length (q s)"

definition Less :: "queue \<Rightarrow> nat \<Rightarrow> nat \<Rightarrow> bool" where
  "Less s i j =
     (let pi = priority (mem s (q s ! i));
          pj = priority (mem s (q s ! j))
      in if pi = pj then routePath (mem s (q s ! i)) < routePath (mem s (q s ! j))
         else if pi = 0 then False
         else if pj = 0 then True
         else pi < pj)"

definition Swap :: "queue \<Rightarrow> nat \<Rightarrow> nat \<Rightarrow> queue" where
  "Swap s i j =
     (let a = q s ! i;
          b = q s ! j;
          q' = (q s)[i := b, j := a];
          m1 = (mem s)(q' ! i := (mem s (q' ! i))\<lparr>index := int i\<rparr>);
          m2 = m1(q' ! j := (m1 (q' ! j))\<lparr>index := int j\<rparr>)
      in s\<lparr>q := q', mem := m2\<rparr>)"

definition Push :: "queue \<Rightarrow> addr \<Rightarrow> queue" where
  "Push s item =
     (let n = length (q s)
      in s\<lparr>q := q s @ [item], mem := (mem s)(item := (mem s item)\<lparr>index := int n\<rparr>)\<rparr>)"

text \<open>
  \<^verbatim>\<open>old[n-1] = nil\<close> clears a slot of the backing array that lies beyond the new
  length; no read of the program reaches it, so the model only shortens the list.
\<close>

definition Pop :: "queue \<Rightarrow> addr \<times> queue" where
  "Pop s =
     (let old = q s;
          n = length old;
          item = old ! (n - 1)
      in (item, s\<lparr>q := take (n - 1) old, mem := (mem s)(item := (mem s item)\<lparr>index := - 1\<rparr>)\<rparr>))"

subsection \<open>Go's \<^verbatim>\<open>container/heap\<close> on that interface\<close>

text \<open>
  \<^verbatim>\<open>up\<close>, \<^verbatim>\<open>down\<close>, \<^verbatim>\<open>Init\<close>, \<^verbatim>\<open>Push\<close>, \<^verbatim>\<open>Pop\<close> and \<^verbatim>\<open>Fix\<close> of the standard library,
  loop by loop. Positions are natural numbers: Go computes the parent of \<open>j\<close> as
  \<^verbatim>\<open>(j - 1) / 2\<close> with truncation towards zero, which is \<open>0\<close> for \<open>j = 0\<close>, as is
  \<open>(j - 1) div 2\<close> on \<open>nat\<close>. The test \<^verbatim>\<open>j1 < 0\<close> of \<^verbatim>\<open>down\<close> guards against
  overflow of \<^verbatim>\<open>int\<close>, which a slice length cannot cause.
\<close>

function up :: "queue \<Rightarrow> nat \<Rightarrow> queue" where
  "up s j =
     (let i = (j - 1) div 2
      in if i = j \<or> \<not> Less s j i then s else up (Swap s i j) i)"
  by pat_completeness auto
termination
  by (relation "measure (\<lambda>(s, j). j)") auto

declare up.simps [simp del]

function down_from :: "queue \<Rightarrow> nat \<Rightarrow> nat \<Rightarrow> queue \<times> nat" where
  "down_from s i n =
     (let j1 = 2 * i + 1
      in if n \<le> j1 then (s, i)
         else let j = (if j1 + 1 < n \<and> Less s (j1 + 1) j1 then j1 + 1 else j1)
              in if \<not> Less s j i then (s, i) else down_from (Swap s i j) j n)"
  by pat_completeness auto
termination
  by (relation "measure (\<lambda>(s, i, n). n - i)") (auto split: if_splits)

declare down_from.simps [simp del]

definition down :: "queue \<Rightarrow> nat \<Rightarrow> nat \<Rightarrow> queue \<times> bool" where
  "down s i0 n = (case down_from s i0 n of (s', i) \<Rightarrow> (s', i0 < i))"

fun Init_loop :: "queue \<Rightarrow> nat \<Rightarrow> nat \<Rightarrow> queue" where
  "Init_loop s 0 n = s"
| "Init_loop s (Suc i) n = Init_loop (fst (down s i n)) i n"

definition heap_Init :: "queue \<Rightarrow> queue" where
  "heap_Init s = (let n = Len s in Init_loop s (n div 2) n)"

definition heap_Push :: "queue \<Rightarrow> addr \<Rightarrow> queue" where
  "heap_Push s x = (let s1 = Push s x in up s1 (Len s1 - 1))"

definition heap_Pop :: "queue \<Rightarrow> addr \<times> queue" where
  "heap_Pop s =
     (let n = Len s - 1;
          s1 = Swap s 0 n;
          s2 = fst (down s1 0 n)
      in Pop s2)"

definition heap_Fix :: "queue \<Rightarrow> nat \<Rightarrow> queue" where
  "heap_Fix s i = (case down s i (Len s) of (s1, moved) \<Rightarrow> if \<not> moved then up s1 i else s1)"

text \<open>
  \<^verbatim>\<open>heap.Fix\<close> is called with the \<^verbatim>\<open>index\<close> field of an item, a Go \<^verbatim>\<open>int\<close>. Inside
  the slice it is \<open>heap_Fix\<close>. Outside, \<^verbatim>\<open>down\<close> leaves at once without touching the
  slice and \<^verbatim>\<open>up\<close> reads \<^verbatim>\<open>q[i]\<close> and panics, unless the position is its own parent
  (\<open>0\<close> and \<open>-1\<close>), where \<^verbatim>\<open>up\<close> leaves at once too.
\<close>

definition heap_Fix_at :: "queue \<Rightarrow> int \<Rightarrow> panic + queue" where
  "heap_Fix_at s i =
     (if 0 \<le> i \<and> i < int (Len s) then Inr (heap_Fix s (nat i))
      else if i = 0 \<or> i = - 1 then Inr s
      else Inl IndexOutOfRange)"

subsection \<open>The queue operations\<close>

definition emptyItem :: queueItem where
  "emptyItem = \<lparr>priority = 0, routePath = [], index = 0\<rparr>"

definition newQueue :: queue where
  "newQueue =
     heap_Init \<lparr>currentPriority = 0, q = [], pathIdx = Map.empty, mem = (\<lambda>_. emptyItem), nxt = 0\<rparr>"

definition addOrUpdate :: "queue \<Rightarrow> string \<Rightarrow> uint64 \<Rightarrow> panic + queue" where
  "addOrUpdate s rp prio =
     (case pathIdx s rp of
        Some existingItem \<Rightarrow>
          if priority (mem s existingItem) = 0 \<and> prio \<noteq> 0
          then let s1 = s\<lparr>mem := (mem s)(existingItem := (mem s existingItem)\<lparr>priority := prio\<rparr>)\<rparr>
               in heap_Fix_at s1 (index (mem s1 existingItem))
          else Inr s
      | None \<Rightarrow>
          let item = nxt s;
              s1 = s\<lparr>mem := (mem s)(item := \<lparr>priority = prio, routePath = rp, index = 0\<rparr>),
                     nxt := Suc item\<rparr>;
              s2 = heap_Push s1 item
          in Inr (s2\<lparr>pathIdx := (pathIdx s2)(rp \<mapsto> item)\<rparr>))"

fun addAll :: "queue \<Rightarrow> string list \<Rightarrow> uint64 \<Rightarrow> panic + queue" where
  "addAll s [] prio = Inr s"
| "addAll s (rp # rps) prio =
     (case addOrUpdate s rp prio of Inl e \<Rightarrow> Inl e | Inr s' \<Rightarrow> addAll s' rps prio)"

definition enqueue :: "queue \<Rightarrow> string list \<Rightarrow> string list \<Rightarrow> panic + queue" where
  "enqueue s invalidatedRoutePaths allRoutePaths =
     (let s1 = s\<lparr>currentPriority := currentPriority s + 1\<rparr>;
          prio = currentPriority s1
      in case addAll s1 invalidatedRoutePaths prio of
           Inl e \<Rightarrow> Inl e
         | Inr s2 \<Rightarrow> addAll s2 allRoutePaths 0)"

definition pop :: "queue \<Rightarrow> string option \<times> queue" where
  "pop s =
     (if Len s = 0 then (None, s)
      else case heap_Pop s of
             (item, s1) \<Rightarrow>
               (Some (routePath (mem s1 item)),
                s1\<lparr>pathIdx := (pathIdx s1)(routePath (mem s1 item) := None)\<rparr>))"

section \<open>The controller (grazer.go)\<close>

text \<open>
  The controller owns the queue, the signal channel \<^verbatim>\<open>sig\<close> and the goroutine that runs
  \<^verbatim>\<open>run\<close>. \<^verbatim>\<open>sig\<close> is made by \<^verbatim>\<open>make(chan struct{})\<close>: an unbuffered channel, which
  holds no value, so its state is whether it has been closed, together with the
  goroutines blocked on it. Only \<^verbatim>\<open>run\<close> ever blocks on it, and the model records where
  \<^verbatim>\<open>run\<close> stands:
  \<^item> \<open>AtReceive\<close>: about to execute the receive \<^verbatim>\<open><-c.sig\<close> at the top of the outer loop;
  \<^item> \<open>Parked\<close>: blocked in that receive;
  \<^item> \<open>AtSelect\<close>: at the \<^verbatim>\<open>select\<close> at the top of the inner loop;
  \<^item> \<open>InPopBatch result\<close>: inside the loop of \<^verbatim>\<open>queuePopBatch\<close>, with \<open>result\<close> collected;
  \<^item> \<open>AtRevalidate routePaths\<close>: in the call of the revalidator with a non-empty batch;
  \<^item> \<open>Returned\<close>: \<^verbatim>\<open>run\<close> has returned (and \<^verbatim>\<open>wg.Done\<close> has run).
\<close>

datatype chan = Open | Closed

datatype run_at = AtReceive | Parked | AtSelect | InPopBatch "string list"
  | AtRevalidate "string list" | Returned

record controller =
  revalidateBatchSize :: int
  queue :: queue
  sig :: chan
  run :: run_at

text \<open>
  \<^verbatim>\<open>newController\<close> makes the queue and the channel and starts \<^verbatim>\<open>go ctrl.run()\<close>; the new
  goroutine has not reached its receive yet.
\<close>

definition newController :: controller where
  "newController = \<lparr>revalidateBatchSize = 1, queue = newQueue, sig = Open, run = AtReceive\<rparr>"

text \<open>
  \<^verbatim>\<open>ensureProcessQueue\<close> is a \<^verbatim>\<open>select\<close> with a send case and a \<^verbatim>\<open>default\<close>. A send on a
  closed channel panics, also inside a \<^verbatim>\<open>select\<close>. On an open unbuffered channel the send
  case can proceed only when a receiver is blocked on the channel: then the receiver takes
  the value and goes on (its receive yields \<^verbatim>\<open>ok = true\<close>, so \<^verbatim>\<open>run\<close> enters its inner
  loop). Otherwise the \<^verbatim>\<open>default\<close> case runs and nothing is sent.
\<close>

definition ensureProcessQueue :: "controller \<Rightarrow> panic + controller" where
  "ensureProcessQueue c =
     (case sig c of
        Closed \<Rightarrow> Inl SendOnClosedChannel
      | Open \<Rightarrow> if run c = Parked then Inr (c\<lparr>run := AtSelect\<rparr>) else Inr c)"

text \<open>
  \<^verbatim>\<open>revalidate\<close>, under the controller's mutex. The outcome of \<^verbatim>\<open>fetcher.ListDocuments\<close>
  comes from outside and is a parameter: \<open>Inl err\<close> when the fetch fails, \<open>Inr documents\<close>
  with the route paths of the documents otherwise. The error returned is
  \<^verbatim>\<open>fmt.Errorf("listing documents: %w", err)\<close>. The map \<^verbatim>\<open>currentRoutePaths\<close> is filled and
  never read, and the log line has no effect on the state; both are left out.
\<close>

definition revalidate ::
  "controller \<Rightarrow> string + string list \<Rightarrow> string list \<Rightarrow> panic + (string option \<times> controller)" where
  "revalidate c fetched invalidatedDocuments =
     (case fetched of
        Inl err \<Rightarrow> Inr (Some (''listing documents: '' @ err), c)
      | Inr documents \<Rightarrow>
          (let invalidatedRoutePaths = invalidatedDocuments;
               allRoutePaths = documents
           in case enqueue (queue c) invalidatedRoutePaths allRoutePaths of
                Inl e \<Rightarrow> Inl e
              | Inr q' \<Rightarrow>
                  (case ensureProcessQueue (c\<lparr>queue := q'\<rparr>) of
                     Inl e \<Rightarrow> Inl e
                   | Inr c' \<Rightarrow> Inr (None, c'))))"

text \<open>
  \<^verbatim>\<open>shutdownAndWait\<close> is \<^verbatim>\<open>close(c.sig)\<close> followed by \<^verbatim>\<open>c.wg.Wait()\<close>. Closing a closed
  channel panics. Closing an open channel releases the receiver blocked on it, whose
  receive yields \<^verbatim>\<open>ok = false\<close>, so a parked \<^verbatim>\<open>run\<close> returns. \<open>closeSig\<close> is the first
  statement; the second one returns once \<^verbatim>\<open>run\<close> has returned, which is \<open>waitDone\<close>.
\<close>

definition closeSig :: "controller \<Rightarrow> panic + controller" where
  "closeSig c =
     (case sig c of
        Closed \<Rightarrow> Inl CloseOfClosedChannel
      | Open \<Rightarrow> Inr (c\<lparr>sig := Closed, run := (if run c = Parked then Returned else run c)\<rparr>))"


text \<open>
  One step of the goroutine of \<^verbatim>\<open>run\<close>; \<open>None\<close> when it is blocked or has returned. The
  receive at the top of the outer loop returns at once on a closed channel and parks the
  goroutine on an open one (no sender ever waits: \<^verbatim>\<open>ensureProcessQueue\<close> never blocks).
  For the same reason the receive case of the inner \<^verbatim>\<open>select\<close> is taken only when the
  channel is closed, and \<^verbatim>\<open>default\<close> otherwise. \<open>InPopBatch\<close> is one turn of the loop of
  \<^verbatim>\<open>queuePopBatch\<close>, followed by the test \<^verbatim>\<open>len(routePaths) == 0\<close> of \<^verbatim>\<open>run\<close> when the loop
  ends. The result of the revalidator is logged and nothing else.
\<close>

definition runStep :: "controller \<Rightarrow> controller option" where
  "runStep c =
     (case run c of
        AtReceive \<Rightarrow>
          (case sig c of
             Closed \<Rightarrow> Some (c\<lparr>run := Returned\<rparr>)
           | Open \<Rightarrow> Some (c\<lparr>run := Parked\<rparr>))
      | Parked \<Rightarrow> None
      | AtSelect \<Rightarrow>
          (case sig c of
             Closed \<Rightarrow> Some (c\<lparr>run := Returned\<rparr>)
           | Open \<Rightarrow> Some (c\<lparr>run := InPopBatch []\<rparr>))
      | InPopBatch result \<Rightarrow>
          (case pop (queue c) of
             (None, q') \<Rightarrow>
               Some (c\<lparr>queue := q',
                       run := (if length result = 0 then AtReceive else AtRevalidate result)\<rparr>)
           | (Some s, q') \<Rightarrow>
               (let result' = result @ [s]
                in Some (c\<lparr>queue := q',
                           run := (if int (length result') = revalidateBatchSize c
                                   then AtRevalidate result' else InPopBatch result')\<rparr>)))
      | AtRevalidate routePaths \<Rightarrow> Some (c\<lparr>run := AtSelect\<rparr>)
      | Returned \<Rightarrow> None)"

text \<open>
  Interleavings of the goroutines: a \<^verbatim>\<open>revalidate\<close> call whose fetch succeeded contributes
  its \<^verbatim>\<open>enqueue\<close> and then its \<^verbatim>\<open>ensureProcessQueue\<close>, \<^verbatim>\<open>run\<close> contributes its steps, the
  shutdown its \<^verbatim>\<open>close\<close>. \<open>fire\<close> is \<open>None\<close> when the event cannot happen (a step of a
  blocked \<^verbatim>\<open>run\<close>), \<open>Some (Inl p)\<close> when it panics.
\<close>

datatype event = EvEnqueue "string list" "string list" | EvSignal | EvRun | EvClose

fun fire :: "controller \<Rightarrow> event \<Rightarrow> (panic + controller) option" where
  "fire c (EvEnqueue invalidated background) =
     (case enqueue (queue c) invalidated background of
        Inl e \<Rightarrow> Some (Inl e)
      | Inr q' \<Rightarrow> Some (Inr (c\<lparr>queue := q'\<rparr>)))"
| "fire c EvSignal = Some (ensureProcessQueue c)"
| "fire c EvRun = map_option Inr (runStep c)"
| "fire c EvClose = Some (closeSig c)"

fun fireAll :: "controller \<Rightarrow> event list \<Rightarrow> (panic + controller) option" where
  "fireAll c [] = Some (Inr c)"
| "fireAll c (e # es) =
     (case fire c e of
        None \<Rightarrow> None
      | Some (Inl p) \<Rightarrow> Some (Inl p)
      | Some (Inr c') \<Rightarrow> fireAll c' es)"

section \<open>Invariants\<close>

text \<open>
  The composite order of \<^verbatim>\<open>Less\<close> as a key: entries without priority last, then the
  priority number, then the route path. \<open>kq\<close> lists the keys of the heap slice.
\<close>

definition okey :: "queueItem \<Rightarrow> bool \<times> uint64 \<times> string" where
  "okey it = (priority it = 0, priority it, routePath it)"

definition kq :: "queue \<Rightarrow> (bool \<times> uint64 \<times> string) list" where
  "kq s = map (\<lambda>a. okey (mem s a)) (q s)"

text \<open>
  The heap order on a list of keys, on the first \<open>n\<close> positions, and the two weaker
  forms that hold while \<^verbatim>\<open>up\<close> and \<^verbatim>\<open>down\<close> move one item.
\<close>

definition heap_le :: "('a::linorder) list \<Rightarrow> nat \<Rightarrow> bool" where
  "heap_le ks n \<longleftrightarrow> (\<forall>j<n. 0 < j \<longrightarrow> ks ! ((j - 1) div 2) \<le> ks ! j)"

definition up_inv :: "('a::linorder) list \<Rightarrow> nat \<Rightarrow> bool" where
  "up_inv ks j \<longleftrightarrow>
     (\<forall>k<length ks. 0 < k \<longrightarrow> k \<noteq> j \<longrightarrow> ks ! ((k - 1) div 2) \<le> ks ! k) \<and>
     (\<forall>k<length ks. 0 < k \<longrightarrow> 0 < j \<longrightarrow> (k - 1) div 2 = j \<longrightarrow> ks ! ((j - 1) div 2) \<le> ks ! k)"

definition down_inv :: "('a::linorder) list \<Rightarrow> nat \<Rightarrow> nat \<Rightarrow> bool" where
  "down_inv ks i n \<longleftrightarrow>
     (\<forall>k<n. 0 < k \<longrightarrow> (k - 1) div 2 \<noteq> i \<longrightarrow> ks ! ((k - 1) div 2) \<le> ks ! k) \<and>
     (\<forall>k<n. 0 < k \<longrightarrow> 0 < i \<longrightarrow> (k - 1) div 2 = i \<longrightarrow> ks ! ((i - 1) div 2) \<le> ks ! k)"

text \<open>
  The bookkeeping of the slice: no item is in it twice and every item knows its
  position. \<open>frame\<close> and \<open>same_items\<close> say what the heap functions leave as it is.
\<close>

definition idx_ok :: "queue \<Rightarrow> bool" where
  "idx_ok s \<longleftrightarrow> distinct (q s) \<and> (\<forall>i<length (q s). index (mem s (q s ! i)) = int i)"

definition frame :: "queue \<Rightarrow> queue \<Rightarrow> bool" where
  "frame s s' \<longleftrightarrow>
     mset (q s') = mset (q s) \<and>
     (\<forall>a. priority (mem s' a) = priority (mem s a) \<and> routePath (mem s' a) = routePath (mem s a)) \<and>
     pathIdx s' = pathIdx s \<and> currentPriority s' = currentPriority s \<and> nxt s' = nxt s"

definition heap_ok :: "queue \<Rightarrow> bool" where
  "heap_ok s \<longleftrightarrow> idx_ok s \<and> heap_le (kq s) (length (q s))"

definition same_items :: "queue \<Rightarrow> queue \<Rightarrow> bool" where
  "same_items s s' \<longleftrightarrow>
     (\<forall>a. priority (mem s' a) = priority (mem s a) \<and> routePath (mem s' a) = routePath (mem s a)) \<and>
     pathIdx s' = pathIdx s \<and> currentPriority s' = currentPriority s \<and> nxt s' = nxt s"

text \<open>
  The invariant of the queue: heap order and bookkeeping, the key index holds exactly
  the items of the slice under their route paths, and every item was allocated.
\<close>

definition queue_ok :: "queue \<Rightarrow> bool" where
  "queue_ok s \<longleftrightarrow>
     heap_ok s \<and>
     (\<forall>k a. pathIdx s k = Some a \<longleftrightarrow> a \<in> set (q s) \<and> routePath (mem s a) = k) \<and>
     (\<forall>a\<in>set (q s). a < nxt s)"

text \<open>
  \<open>prio_of s k\<close> is the priority of the entry that the key index holds for \<open>k\<close>,
  \<open>keys s\<close> the route paths of the items in the slice, and \<open>settle prio\<close> what
  \<^verbatim>\<open>_addOrUpdate\<close> with priority \<open>prio\<close> makes of the priority of its key.
\<close>

definition prio_of :: "queue \<Rightarrow> string \<Rightarrow> uint64 option" where
  "prio_of s k = map_option (\<lambda>a. priority (mem s a)) (pathIdx s k)"

definition keys :: "queue \<Rightarrow> string list" where
  "keys s = map (\<lambda>a. routePath (mem s a)) (q s)"

fun settle :: "uint64 \<Rightarrow> uint64 option \<Rightarrow> uint64 option" where
  "settle prio None = Some prio"
| "settle prio (Some p) = Some (if p = 0 then prio else p)"

text \<open>
  The live entries of the queue, in slice order: the key and the priority of each item
  the heap slice points to.
\<close>

definition entries :: "queue \<Rightarrow> (string \<times> uint64) list" where
  "entries s = map (\<lambda>a. (routePath (mem s a), priority (mem s a))) (q s)"

text \<open>
  Call sequences on one queue: each call is an \<^verbatim>\<open>enqueue\<close> with its two lists or a
  \<^verbatim>\<open>pop\<close>. \<open>exec\<close> runs a sequence and collects what the pops return, \<open>after\<close>
  is the state it ends in, \<open>reachable\<close> are the states a queue made by
  \<^verbatim>\<open>newQueue\<close> can be in.
\<close>

datatype op = OpEnqueue "string list" "string list" | OpPop

fun exec :: "queue \<Rightarrow> op list \<Rightarrow> panic + (string option list \<times> queue)" where
  "exec s [] = Inr ([], s)"
| "exec s (OpEnqueue invalidated background # ops) =
     (case enqueue s invalidated background of
        Inl e \<Rightarrow> Inl e
      | Inr s' \<Rightarrow> exec s' ops)"
| "exec s (OpPop # ops) =
     (case pop s of
        (r, s') \<Rightarrow>
          (case exec s' ops of
             Inl e \<Rightarrow> Inl e
           | Inr (out, s'') \<Rightarrow> Inr (r # out, s'')))"

definition after :: "queue \<Rightarrow> op list \<Rightarrow> queue" where
  "after s ops = (case exec s ops of Inr (out, s') \<Rightarrow> s' | Inl e \<Rightarrow> s)"

definition popped :: "queue \<Rightarrow> op list \<Rightarrow> string option list" where
  "popped s ops = (case exec s ops of Inr (out, s') \<Rightarrow> out | Inl e \<Rightarrow> [])"

inductive reachable :: "queue \<Rightarrow> bool" where
  init: "reachable newQueue"
| enq: "reachable s \<Longrightarrow> enqueue s invalidated background = Inr s' \<Longrightarrow> reachable s'"
| deq: "reachable s \<Longrightarrow> pop s = (r, s') \<Longrightarrow> reachable s'"

text \<open>
  A list without its repeated elements, each kept at its first occurrence: the
  deduplicated list of the claim about repeated keys, written from the claim's words to
  be compared with what \<^verbatim>\<open>enqueue\<close> does on the list as given.
\<close>

fun dedup :: "'a list \<Rightarrow> 'a list" where
  "dedup [] = []"
| "dedup (x # xs) = x # filter (\<lambda>y. y \<noteq> x) (dedup xs)"

text \<open>
  A key is settled for a priority when \<^verbatim>\<open>_addOrUpdate\<close> with that priority would
  leave it alone.
\<close>

definition settled :: "queue \<Rightarrow> string \<Rightarrow> uint64 \<Rightarrow> bool" where
  "settled s k prio \<longleftrightarrow> (\<exists>p. prio_of s k = Some p \<and> (p \<noteq> 0 \<or> prio = 0))"

text \<open>
  The number of \<^verbatim>\<open>enqueue\<close> calls in a sequence, and the bound that holds while the
  generation counter has not wrapped around: no priority exceeds the counter.
\<close>

fun count_enq :: "op list \<Rightarrow> nat" where
  "count_enq [] = 0"
| "count_enq (OpEnqueue invalidated background # ops) = Suc (count_enq ops)"
| "count_enq (OpPop # ops) = count_enq ops"

definition prio_bounded :: "queue \<Rightarrow> bool" where
  "prio_bounded s \<longleftrightarrow> (\<forall>k p. prio_of s k = Some p \<longrightarrow> p \<le> currentPriority s)"


section \<open>The heap algorithms keep the heap order\<close>

lemma Less_okey: "Less s i j \<longleftrightarrow> okey (mem s (q s ! i)) < okey (mem s (q s ! j))"
  by (auto simp: Less_def okey_def Let_def less_prod_def less_eq_prod_def)

lemma Less_kq: "i < length (q s) \<Longrightarrow> j < length (q s) \<Longrightarrow> Less s i j \<longleftrightarrow> kq s ! i < kq s ! j"
  by (simp add: Less_okey kq_def)

lemma heap_le_min:
  "heap_le ks n \<Longrightarrow> j < n \<Longrightarrow> ks ! 0 \<le> ks ! j"
proof (induction j rule: less_induct)
  case (less j)
  show ?case
  proof (cases "j = 0")
    case True then show ?thesis by simp
  next
    case False
    then have "(j - 1) div 2 < j" by arith
    moreover have "ks ! ((j - 1) div 2) \<le> ks ! j"
      using less.prems False by (simp add: heap_le_def)
    ultimately show ?thesis
      using less.IH[of "(j - 1) div 2"] less.prems by force
  qed
qed

lemma up_done:
  "up_inv ks j \<Longrightarrow> j = 0 \<or> \<not> ks ! j < ks ! ((j - 1) div 2) \<Longrightarrow> heap_le ks (length ks)"
  unfolding up_inv_def heap_le_def
  by (metis not_le_imp_less not_less_zero)

lemma up_step:
  assumes "up_inv ks j" "j < length ks" "0 < j" "ks ! j < ks ! ((j - 1) div 2)"
  shows "up_inv (ks[(j - 1) div 2 := ks ! j, j := ks ! ((j - 1) div 2)]) ((j - 1) div 2)"
proof -
  define p where "p = (j - 1) div 2"
  have pj: "p < j" using assms(3) unfolding p_def by arith
  have A: "\<And>k. k < length ks \<Longrightarrow> 0 < k \<Longrightarrow> k \<noteq> j \<Longrightarrow> ks ! ((k - 1) div 2) \<le> ks ! k"
    using assms(1) by (simp add: up_inv_def)
  have B: "\<And>k. k < length ks \<Longrightarrow> 0 < k \<Longrightarrow> (k - 1) div 2 = j \<Longrightarrow> ks ! p \<le> ks ! k"
    using assms(1,3) by (simp add: up_inv_def p_def)
  have lt: "ks ! j < ks ! p" using assms(4) by (simp add: p_def)
  let ?ks = "ks[p := ks ! j, j := ks ! p]"
  have nth: "\<And>k. k < length ks \<Longrightarrow> ?ks ! k = (if k = j then ks ! p else if k = p then ks ! j else ks ! k)"
    using pj assms(2) by (simp add: nth_list_update)
  have par: "\<And>k. 0 < k \<Longrightarrow> k < length ks \<Longrightarrow> (k - 1) div 2 < length ks \<and> (k - 1) div 2 < k"
    by arith
  have 1: "?ks ! ((k - 1) div 2) \<le> ?ks ! k" if k: "k < length ks" "0 < k" "k \<noteq> p" for k
  proof (cases "k = j")
    case True
    then show ?thesis using nth[of j] nth[of p] pj assms(2) lt by (simp add: p_def)
  next
    case False
    have pk: "(k - 1) div 2 < length ks" using par k by blast
    consider "(k - 1) div 2 = p" | "(k - 1) div 2 = j" | "(k - 1) div 2 \<noteq> p" "(k - 1) div 2 \<noteq> j" by blast
    then show ?thesis
    proof cases
      case 1
      have "ks ! p \<le> ks ! k" using A[OF k(1,2) False] 1 by simp
      then show ?thesis using nth[OF k(1)] nth[OF pk] 1 False k(3) pj lt by simp
    next
      case 2
      then show ?thesis using nth[OF k(1)] nth[OF pk] False k(3) B[OF k(1,2) 2] pj by simp
    next
      case 3
      then show ?thesis using nth[OF k(1)] nth[OF pk] False k(3) A[OF k(1,2) False] by simp
    qed
  qed
  have 2: "?ks ! ((p - 1) div 2) \<le> ?ks ! k" if k: "k < length ks" "0 < k" "0 < p" "(k - 1) div 2 = p" for k
  proof -
    have pp: "(p - 1) div 2 < p" using k(3) by arith
    have plen: "p < length ks" using pj assms(2) by simp
    have e1: "?ks ! ((p - 1) div 2) = ks ! ((p - 1) div 2)"
      using nth[of "(p - 1) div 2"] pp pj plen by simp
    have le_p: "ks ! ((p - 1) div 2) \<le> ks ! p"
      using A[of p] plen k(3) pj by simp
    have kp: "k \<noteq> p" using k(4) par[OF k(2,1)] by simp
    show ?thesis
    proof (cases "k = j")
      case True
      then show ?thesis using nth[OF k(1)] e1 le_p by simp
    next
      case False
      have "ks ! p \<le> ks ! k" using A[OF k(1,2) False] k(4) by simp
      then show ?thesis using nth[OF k(1)] e1 le_p False kp by simp
    qed
  qed
  show ?thesis
    unfolding up_inv_def p_def[symmetric] using 1 2 by simp
qed

lemma down_done1:
  "down_inv ks i n \<Longrightarrow> n \<le> 2 * i + 1 \<Longrightarrow> heap_le ks n"
  unfolding down_inv_def heap_le_def
proof (intro allI impI)
  fix j assume a: "(\<forall>k<n. 0 < k \<longrightarrow> (k - 1) div 2 \<noteq> i \<longrightarrow> ks ! ((k - 1) div 2) \<le> ks ! k) \<and>
     (\<forall>k<n. 0 < k \<longrightarrow> 0 < i \<longrightarrow> (k - 1) div 2 = i \<longrightarrow> ks ! ((i - 1) div 2) \<le> ks ! k)"
    and n: "n \<le> 2 * i + 1" and j: "j < n" "0 < j"
  have "(j - 1) div 2 \<noteq> i" using n j by arith
  then show "ks ! ((j - 1) div 2) \<le> ks ! j" using a j by blast
qed

lemma down_done2:
  assumes "down_inv ks i n" "2 * i + 1 < n"
    and "j = (if 2 * i + 1 + 1 < n \<and> ks ! (2 * i + 1 + 1) < ks ! (2 * i + 1) then 2 * i + 1 + 1 else 2 * i + 1)"
    and "\<not> ks ! j < ks ! i"
  shows "heap_le ks n"
  unfolding heap_le_def
proof (intro allI impI)
  fix k assume k: "k < n" "0 < k"
  show "ks ! ((k - 1) div 2) \<le> ks ! k"
  proof (cases "(k - 1) div 2 = i")
    case False
    then show ?thesis using assms(1) k by (simp add: down_inv_def)
  next
    case True
    then have "k = 2 * i + 1 \<or> k = 2 * i + 1 + 1" using k by arith
    moreover have "ks ! i \<le> ks ! j" using assms(4) by simp
    ultimately show ?thesis using assms(3) True k by (auto split: if_splits)
  qed
qed

lemma down_step:
  assumes "down_inv ks i n" "2 * i + 1 < n" "n \<le> length ks"
    and j: "j = (if 2 * i + 1 + 1 < n \<and> ks ! (2 * i + 1 + 1) < ks ! (2 * i + 1) then 2 * i + 1 + 1 else 2 * i + 1)"
    and lt: "ks ! j < ks ! i"
  shows "down_inv (ks[i := ks ! j, j := ks ! i]) j n"
proof -
  have ij: "i < j" "j < n" "(j - 1) div 2 = i" using j assms(2) by (auto split: if_splits)
  have A: "\<And>k. k < n \<Longrightarrow> 0 < k \<Longrightarrow> (k - 1) div 2 \<noteq> i \<Longrightarrow> ks ! ((k - 1) div 2) \<le> ks ! k"
    using assms(1) by (simp add: down_inv_def)
  have B: "\<And>k. k < n \<Longrightarrow> 0 < k \<Longrightarrow> 0 < i \<Longrightarrow> (k - 1) div 2 = i \<Longrightarrow> ks ! ((i - 1) div 2) \<le> ks ! k"
    using assms(1) by (simp add: down_inv_def)
  have sib: "ks ! j \<le> ks ! k" if "k < n" "0 < k" "(k - 1) div 2 = i" for k
  proof -
    have "k = 2 * i + 1 \<or> k = 2 * i + 1 + 1" using that by arith
    then show ?thesis using j that by (auto split: if_splits)
  qed
  let ?ks = "ks[i := ks ! j, j := ks ! i]"
  have nj: "?ks ! j = ks ! i" using ij assms(3) by simp
  have ni: "?ks ! i = ks ! j" using ij assms(3) by simp
  have no: "\<And>k. k \<noteq> i \<Longrightarrow> k \<noteq> j \<Longrightarrow> ?ks ! k = ks ! k" by simp
  have par: "\<And>k. 0 < k \<Longrightarrow> k < n \<Longrightarrow> (k - 1) div 2 < n \<and> (k - 1) div 2 < k"
    by arith
  have 1: "?ks ! ((k - 1) div 2) \<le> ?ks ! k" if k: "k < n" "0 < k" "(k - 1) div 2 \<noteq> j" for k
  proof -
    have pk: "(k - 1) div 2 < n" "(k - 1) div 2 < k" using par k by blast+
    consider "k = j" | "k = i" | "k \<noteq> j" "k \<noteq> i" by blast
    then show ?thesis
    proof cases
      case 1
      have "?ks ! ((j - 1) div 2) = ks ! j" using ij(3) ni by simp
      then show ?thesis using 1 nj lt by simp
    next
      case 2
      then have i0: "0 < i" using k by simp
      then have le: "ks ! ((i - 1) div 2) \<le> ks ! j" using B[of j] ij by simp
      have "(i - 1) div 2 < i" using i0 by arith
      then have "?ks ! ((i - 1) div 2) = ks ! ((i - 1) div 2)" using no[of "(i - 1) div 2"] ij(1) by simp
      then show ?thesis using 2 ni le by simp
    next
      case 3
      have e: "?ks ! k = ks ! k" using no 3 by blast
      show ?thesis
      proof (cases "(k - 1) div 2 = i")
        case True
        then show ?thesis using e ni sib[OF k(1,2) True] by simp
      next
        case False
        then have "?ks ! ((k - 1) div 2) = ks ! ((k - 1) div 2)" using no k(3) by blast
        then show ?thesis using e A[OF k(1,2) False] by simp
      qed
    qed
  qed
  have 2: "?ks ! ((j - 1) div 2) \<le> ?ks ! k" if k: "k < n" "0 < k" "(k - 1) div 2 = j" for k
  proof -
    have "j < k" using par[OF k(2,1)] k(3) by simp
    then have "k \<noteq> j" "k \<noteq> i" using ij by simp_all
    then have e: "?ks ! k = ks ! k" using no by blast
    have "(k - 1) div 2 \<noteq> i" using k(3) ij(1) by simp
    then have "ks ! j \<le> ks ! k" using A[OF k(1,2)] k(3) by simp
    moreover have "?ks ! ((j - 1) div 2) = ks ! j" using ij(3) ni by simp
    ultimately show ?thesis using e by simp
  qed
  show ?thesis
    unfolding down_inv_def using 1 2 by blast
qed

lemma decrease_up_inv:
  assumes "heap_le ks (length ks)" "i < length ks" "x \<le> ks ! i"
  shows "up_inv (ks[i := x]) i"
  unfolding up_inv_def
proof (intro conjI allI impI)
  fix k assume k: "k < length (ks[i := x])" "0 < k" "k \<noteq> i"
  then have le: "ks ! ((k - 1) div 2) \<le> ks ! k" using assms(1) by (simp add: heap_le_def)
  have "(k - 1) div 2 < length ks" using k by (simp; arith)
  then show "ks[i := x] ! ((k - 1) div 2) \<le> ks[i := x] ! k"
    using k le assms(2,3) by (auto simp: nth_list_update)
next
  fix k assume k: "k < length (ks[i := x])" "0 < k" "0 < i" "(k - 1) div 2 = i"
  have "(i - 1) div 2 < i" using k(3) by arith
  moreover have "k \<noteq> i" using k by arith
  moreover have "ks ! ((i - 1) div 2) \<le> ks ! i" using assms(1,2) k(3) by (simp add: heap_le_def)
  moreover have "ks ! i \<le> ks ! k" using assms(1) k by (auto simp: heap_le_def)
  ultimately show "ks[i := x] ! ((i - 1) div 2) \<le> ks[i := x] ! k"
    using k assms(2) by (simp add: nth_list_update)
qed

lemma decrease_children:
  assumes "heap_le ks (length ks)" "i < length ks" "x \<le> ks ! i" "k < length ks" "0 < k" "(k - 1) div 2 = i"
  shows "\<not> ks[i := x] ! k < ks[i := x] ! i"
proof -
  have "k \<noteq> i" using assms(5,6) by arith
  moreover have "ks ! i \<le> ks ! k" using assms(1,4,5,6) by (auto simp: heap_le_def)
  ultimately show ?thesis using assms(2,3) by (simp add: nth_list_update)
qed

lemma append_up_inv:
  assumes "heap_le ks (length ks)"
  shows "up_inv (ks @ [x]) (length ks)"
  unfolding up_inv_def
proof (intro conjI allI impI)
  fix k assume k: "k < length (ks @ [x])" "0 < k" "k \<noteq> length ks"
  then have kl: "k < length ks" by simp
  then have "(k - 1) div 2 < length ks" by arith
  then show "(ks @ [x]) ! ((k - 1) div 2) \<le> (ks @ [x]) ! k"
    using kl k(2) assms by (simp add: nth_append heap_le_def)
next
  fix k assume k: "k < length (ks @ [x])" "0 < k" "0 < length ks" "(k - 1) div 2 = length ks"
  then have False by (simp; arith)
  then show "(ks @ [x]) ! ((length ks - 1) div 2) \<le> (ks @ [x]) ! k" ..
qed

lemma root_swap_down_inv:
  assumes "heap_le ks (length ks)" "ks \<noteq> []"
  shows "down_inv (ks[0 := ks ! (length ks - 1), length ks - 1 := ks ! 0]) 0 (length ks - 1)"
  unfolding down_inv_def
proof (intro conjI allI impI)
  fix k assume k: "k < length ks - 1" "0 < k" "(k - 1) div 2 \<noteq> 0"
  then have "(k - 1) div 2 < length ks - 1" by arith
  then show "ks[0 := ks ! (length ks - 1), length ks - 1 := ks ! 0] ! ((k - 1) div 2)
          \<le> ks[0 := ks ! (length ks - 1), length ks - 1 := ks ! 0] ! k"
    using k assms(1) by (simp add: nth_list_update heap_le_def)
qed simp

lemma heap_le_take:
  "heap_le ks n \<Longrightarrow> n \<le> length ks \<Longrightarrow> heap_le (take n ks) n"
  unfolding heap_le_def
proof (intro allI impI)
  fix j assume a: "\<forall>j<n. 0 < j \<longrightarrow> ks ! ((j - 1) div 2) \<le> ks ! j" "n \<le> length ks" "j < n" "0 < j"
  then have "(j - 1) div 2 < n" by arith
  then show "take n ks ! ((j - 1) div 2) \<le> take n ks ! j" using a by simp
qed

lemma frame_refl: "frame s s"
  by (simp add: frame_def)

lemma frame_trans: "frame s s1 \<Longrightarrow> frame s1 s2 \<Longrightarrow> frame s s2"
  by (simp add: frame_def)

lemma frame_length: "frame s s' \<Longrightarrow> length (q s') = length (q s)"
  by (metis frame_def size_mset)

lemma frame_set: "frame s s' \<Longrightarrow> set (q s') = set (q s)"
  by (metis frame_def set_mset_mset)

lemma frame_okey: "frame s s' \<Longrightarrow> okey (mem s' a) = okey (mem s a)"
  by (simp add: frame_def okey_def)

lemma q_Swap: "q (Swap s i j) = (q s)[i := q s ! j, j := q s ! i]"
  by (simp add: Swap_def Let_def)

lemma length_Swap: "length (q (Swap s i j)) = length (q s)"
  by (simp add: q_Swap)

lemma okey_Swap: "okey (mem (Swap s i j) a) = okey (mem s a)"
  by (simp add: Swap_def Let_def okey_def)

lemma kq_Swap:
  "i < length (q s) \<Longrightarrow> j < length (q s) \<Longrightarrow>
   kq (Swap s i j) = (kq s)[i := kq s ! j, j := kq s ! i]"
  by (simp add: kq_def q_Swap okey_Swap map_update)

lemma frame_Swap:
  "i < length (q s) \<Longrightarrow> j < length (q s) \<Longrightarrow> frame s (Swap s i j)"
  unfolding frame_def
  by (simp add: q_Swap mset_swap) (simp add: Swap_def Let_def)

lemma idx_ok_Swap:
  assumes "idx_ok s" "i < length (q s)" "j < length (q s)"
  shows "idx_ok (Swap s i j)"
proof -
  have d: "distinct (q s)" using assms(1) by (simp add: idx_ok_def)
  have ix: "\<And>k. k < length (q s) \<Longrightarrow> index (mem s (q s ! k)) = int k"
    using assms(1) by (simp add: idx_ok_def)
  have inj: "\<And>k l. k < length (q s) \<Longrightarrow> l < length (q s) \<Longrightarrow> q s ! k = q s ! l \<longleftrightarrow> k = l"
    using d by (simp add: nth_eq_iff_index_eq)
  have "distinct (q (Swap s i j))"
    using d assms(2,3) by (simp add: q_Swap distinct_swap)
  moreover have "index (mem (Swap s i j) (q (Swap s i j) ! k)) = int k" if "k < length (q s)" for k
    using that assms(2,3) ix[OF that] inj[of i j] inj[of k i] inj[of k j]
    by (auto simp: Swap_def Let_def nth_list_update)
  ultimately show ?thesis by (simp add: idx_ok_def length_Swap)
qed

lemma nth_Swap_other: "k \<noteq> i \<Longrightarrow> k \<noteq> j \<Longrightarrow> q (Swap s i j) ! k = q s ! k"
  by (simp add: q_Swap)

lemma up_frame:
  "j < length (q s) \<Longrightarrow> idx_ok s \<Longrightarrow> frame s (up s j) \<and> idx_ok (up s j)"
proof (induction s j rule: up.induct)
  case (1 s j)
  let ?i = "(j - 1) div 2"
  show ?case
  proof (cases "?i = j \<or> \<not> Less s j ?i")
    case True
    then show ?thesis using "1.prems" by (subst (1 2) up.simps) (simp add: Let_def frame_refl)
  next
    case False
    have i: "?i < length (q s)" using "1.prems"(1) by arith
    have f: "frame s (Swap s ?i j)" using i "1.prems"(1) by (rule frame_Swap)
    have ok: "idx_ok (Swap s ?i j)" using "1.prems"(2) i "1.prems"(1) by (rule idx_ok_Swap)
    have "frame (Swap s ?i j) (up (Swap s ?i j) ?i) \<and> idx_ok (up (Swap s ?i j) ?i)"
      using "1.IH"[OF refl False] i ok by (simp add: length_Swap)
    moreover have "up s j = up (Swap s ?i j) ?i"
      using False by (subst up.simps) (simp add: Let_def)
    ultimately show ?thesis using f frame_trans by metis
  qed
qed

lemma up_heap:
  "j < length (q s) \<Longrightarrow> up_inv (kq s) j \<Longrightarrow> heap_le (kq (up s j)) (length (q s))"
proof (induction s j rule: up.induct)
  case (1 s j)
  let ?i = "(j - 1) div 2"
  have len: "length (kq s) = length (q s)" by (simp add: kq_def)
  have i: "?i < length (q s)" using "1.prems"(1) by arith
  show ?case
  proof (cases "?i = j \<or> \<not> Less s j ?i")
    case True
    then have "j = 0 \<or> \<not> kq s ! j < kq s ! ?i"
      using Less_kq[OF "1.prems"(1) i] by auto
    then have "heap_le (kq s) (length (kq s))" using "1.prems"(2) up_done by blast
    moreover have "up s j = s" using True by (subst up.simps) (simp add: Let_def)
    ultimately show ?thesis by (simp add: len)
  next
    case False
    then have j0: "0 < j" and lt: "kq s ! j < kq s ! ?i"
      using Less_kq[OF "1.prems"(1) i] by auto
    have "up_inv (kq (Swap s ?i j)) ?i"
      using up_step[OF "1.prems"(2) _ j0 lt] "1.prems"(1) i by (simp add: kq_Swap len)
    then have "heap_le (kq (up (Swap s ?i j) ?i)) (length (q s))"
      using "1.IH"[OF refl False] i by (simp add: length_Swap)
    moreover have "up s j = up (Swap s ?i j) ?i"
      using False by (subst up.simps) (simp add: Let_def)
    ultimately show ?thesis by simp
  qed
qed

lemma down_from_stop:
  "n \<le> 2 * i + 1 \<Longrightarrow> down_from s i n = (s, i)"
  by (subst down_from.simps) (simp add: Let_def)

lemma down_from_cases:
  assumes "2 * i + 1 < n"
    and "j = (if 2 * i + 1 + 1 < n \<and> Less s (2 * i + 1 + 1) (2 * i + 1) then 2 * i + 1 + 1 else 2 * i + 1)"
  shows "down_from s i n = (if \<not> Less s j i then (s, i) else down_from (Swap s i j) j n)"
  using assms(1) unfolding assms(2) by (subst down_from.simps) (simp add: Let_def)

lemma down_frame:
  "n \<le> length (q s) \<Longrightarrow> idx_ok s \<Longrightarrow>
   frame s (fst (down_from s i n)) \<and> idx_ok (fst (down_from s i n)) \<and>
   (\<forall>k\<ge>n. q (fst (down_from s i n)) ! k = q s ! k)"
proof (induction s i n rule: down_from.induct)
  case (1 s i n)
  show ?case
  proof (cases "n \<le> 2 * i + 1")
    case True
    then show ?thesis using "1.prems" by (simp add: down_from_stop frame_refl)
  next
    case False
    define j where "j = (if 2 * i + 1 + 1 < n \<and> Less s (2 * i + 1 + 1) (2 * i + 1) then 2 * i + 1 + 1 else 2 * i + 1)"
    have ij: "i < j" "j < n" using False by (auto simp: j_def)
    have eq: "down_from s i n = (if \<not> Less s j i then (s, i) else down_from (Swap s i j) j n)"
      using down_from_cases[of i n j s] False by (simp add: j_def)
    show ?thesis
    proof (cases "Less s j i")
      case F2: False
      then show ?thesis using eq "1.prems" by (simp add: frame_refl)
    next
      case True
      have il: "i < length (q s)" "j < length (q s)" using ij "1.prems"(1) by simp_all
      have f: "frame s (Swap s i j)" using il by (rule frame_Swap)
      have ok: "idx_ok (Swap s i j)" using "1.prems"(2) il by (rule idx_ok_Swap)
      have IH: "frame (Swap s i j) (fst (down_from (Swap s i j) j n)) \<and>
                idx_ok (fst (down_from (Swap s i j) j n)) \<and>
                (\<forall>k\<ge>n. q (fst (down_from (Swap s i j) j n)) ! k = q (Swap s i j) ! k)"
        using "1.IH"[OF refl _ j_def] False True "1.prems"(1) ok
        by (simp add: length_Swap)
      have "\<forall>k\<ge>n. q (Swap s i j) ! k = q s ! k"
        using ij by (simp add: nth_Swap_other)
      then show ?thesis using eq True IH f frame_trans by (metis (no_types, lifting))
    qed
  qed
qed

lemma down_heap:
  "n \<le> length (q s) \<Longrightarrow> down_inv (kq s) i n \<Longrightarrow> heap_le (kq (fst (down_from s i n))) n"
proof (induction s i n rule: down_from.induct)
  case (1 s i n)
  have len: "length (kq s) = length (q s)" by (simp add: kq_def)
  show ?case
  proof (cases "n \<le> 2 * i + 1")
    case True
    then show ?thesis using "1.prems" down_done1 by (simp add: down_from_stop) blast
  next
    case False
    define j where "j = (if 2 * i + 1 + 1 < n \<and> Less s (2 * i + 1 + 1) (2 * i + 1) then 2 * i + 1 + 1 else 2 * i + 1)"
    have ij: "i < j" "j < n" using False by (auto simp: j_def)
    have il: "i < length (q s)" "j < length (q s)" using ij "1.prems"(1) by simp_all
    have eq: "down_from s i n = (if \<not> Less s j i then (s, i) else down_from (Swap s i j) j n)"
      using down_from_cases[of i n j s] False by (simp add: j_def)
    have jk: "j = (if 2 * i + 1 + 1 < n \<and> kq s ! (2 * i + 1 + 1) < kq s ! (2 * i + 1) then 2 * i + 1 + 1 else 2 * i + 1)"
    proof (cases "2 * i + 1 + 1 < n")
      case True
      then show ?thesis using Less_kq[of "2 * i + 1 + 1" s "2 * i + 1"] "1.prems"(1) by (simp add: j_def)
    next
      case False
      then show ?thesis by (simp add: j_def)
    qed
    have lt: "2 * i + 1 < n" using False by simp
    show ?thesis
    proof (cases "Less s j i")
      case F2: False
      then have "\<not> kq s ! j < kq s ! i" using Less_kq[OF il(2) il(1)] by simp
      then have "heap_le (kq s) n" using down_done2[OF "1.prems"(2) lt jk] by simp
      then show ?thesis using eq F2 by simp
    next
      case True
      then have "kq s ! j < kq s ! i" using Less_kq[OF il(2) il(1)] by simp
      then have "down_inv (kq (Swap s i j)) j n"
        using down_step[OF "1.prems"(2) lt _ jk] "1.prems"(1) il by (simp add: kq_Swap len)
      then have "heap_le (kq (fst (down_from (Swap s i j) j n))) n"
        using "1.IH"[OF refl _ j_def] False True "1.prems"(1)
        by (simp add: length_Swap)
      then show ?thesis using eq True by simp
    qed
  qed
qed

lemma down_nomove:
  assumes "n \<le> length (q s)"
    and "\<And>k. k < n \<Longrightarrow> 0 < k \<Longrightarrow> (k - 1) div 2 = i \<Longrightarrow> \<not> kq s ! k < kq s ! i"
  shows "down_from s i n = (s, i)"
proof (cases "n \<le> 2 * i + 1")
  case True
  then show ?thesis by (rule down_from_stop)
next
  case False
  define j where "j = (if 2 * i + 1 + 1 < n \<and> Less s (2 * i + 1 + 1) (2 * i + 1) then 2 * i + 1 + 1 else 2 * i + 1)"
  have ij: "i < j" "j < n" "0 < j" "(j - 1) div 2 = i" using False by (auto simp: j_def)
  have il: "i < length (q s)" "j < length (q s)" using ij assms(1) by simp_all
  have "\<not> Less s j i" using assms(2)[OF ij(2,3,4)] Less_kq[OF il(2) il(1)] by simp
  then show ?thesis using down_from_cases[of i n j s] False by (simp add: j_def)
qed

lemma frame_same_items: "frame s s' \<Longrightarrow> same_items s s'"
  by (simp add: frame_def same_items_def)

lemma same_items_trans: "same_items s s1 \<Longrightarrow> same_items s1 s2 \<Longrightarrow> same_items s s2"
  by (simp add: same_items_def)

lemma length_kq: "length (kq s) = length (q s)"
  by (simp add: kq_def)

lemma frame_kq_length: "frame s s' \<Longrightarrow> length (kq s') = length (kq s)"
  by (simp add: length_kq frame_length)

lemma heap_Push_props:
  assumes "heap_ok s" "x \<notin> set (q s)"
  shows "heap_ok (heap_Push s x) \<and> same_items s (heap_Push s x) \<and>
         mset (q (heap_Push s x)) = add_mset x (mset (q s))"
proof -
  let ?n = "length (q s)"
  let ?s1 = "Push s x"
  have q1: "q ?s1 = q s @ [x]" by (simp add: Push_def Let_def)
  have m1: "\<And>a. a \<noteq> x \<Longrightarrow> mem ?s1 a = mem s a" by (simp add: Push_def Let_def)
  have mx: "index (mem ?s1 x) = int ?n" by (simp add: Push_def Let_def)
  have si: "same_items s ?s1" by (simp add: same_items_def Push_def Let_def)
  have ok1: "idx_ok ?s1"
    unfolding idx_ok_def
  proof (intro conjI allI impI)
    show "distinct (q ?s1)" using assms by (simp add: q1 heap_ok_def idx_ok_def)
  next
    fix i assume i: "i < length (q ?s1)"
    show "index (mem ?s1 (q ?s1 ! i)) = int i"
    proof (cases "i < ?n")
      case True
      then have "q ?s1 ! i = q s ! i" "q s ! i \<noteq> x" using assms(2) by (auto simp: q1 nth_append)
      then show ?thesis using m1 True assms(1) by (simp add: heap_ok_def idx_ok_def)
    next
      case False
      then have "i = ?n" using i by (simp add: q1)
      then show ?thesis using mx by (simp add: q1)
    qed
  qed
  have k1: "kq ?s1 = kq s @ [okey (mem s x)]"
    using si by (simp add: kq_def q1 okey_def same_items_def)
  have "up_inv (kq ?s1) (length (kq s))"
    unfolding k1 using assms(1) by (intro append_up_inv) (simp add: heap_ok_def length_kq)
  then have u: "up_inv (kq ?s1) ?n" by (simp add: length_kq)
  have nl: "?n < length (q ?s1)" by (simp add: q1)
  have e: "heap_Push s x = up ?s1 ?n" by (simp add: heap_Push_def Let_def Len_def q1)
  have f: "frame ?s1 (up ?s1 ?n)" and ok2: "idx_ok (up ?s1 ?n)"
    using up_frame[OF nl ok1] by simp_all
  have h: "heap_le (kq (up ?s1 ?n)) (length (q (up ?s1 ?n)))"
    using up_heap[OF nl u] frame_length[OF f] by simp
  have "mset (q (up ?s1 ?n)) = add_mset x (mset (q s))"
    using f by (simp add: frame_def q1)
  then show ?thesis
    using e ok2 h same_items_trans[OF si frame_same_items[OF f]] by (simp add: heap_ok_def)
qed

lemma heap_ok_min:
  assumes "heap_ok s" "a \<in> set (q s)"
  shows "okey (mem s (q s ! 0)) \<le> okey (mem s a)"
proof -
  obtain j where j: "j < length (q s)" "q s ! j = a"
    using assms(2) by (auto simp: in_set_conv_nth)
  have "kq s ! 0 \<le> kq s ! j"
    using heap_le_min assms(1) j(1) by (auto simp: heap_ok_def)
  moreover have "0 < length (q s)" using j(1) by (cases "q s") simp_all
  ultimately show ?thesis using j by (simp add: kq_def)
qed

lemma heap_Pop_props:
  assumes "heap_ok s" "q s \<noteq> []"
  shows "fst (heap_Pop s) = q s ! 0 \<and> heap_ok (snd (heap_Pop s)) \<and>
         same_items s (snd (heap_Pop s)) \<and>
         mset (q s) = add_mset (q s ! 0) (mset (q (snd (heap_Pop s))))"
proof -
  define n where "n = length (q s) - 1"
  define s1 where "s1 = Swap s 0 n"
  define s2 where "s2 = fst (down_from s1 0 n)"
  define s3 where "s3 = snd (Pop s2)"
  have n: "n < length (q s)" "length (q s) = Suc n" "0 < length (q s)"
    using assms(2) by (simp_all add: n_def)
  have ok: "idx_ok s" and hp: "heap_le (kq s) (length (kq s))"
    using assms(1) by (simp_all add: heap_ok_def length_kq)
  have f1: "frame s s1" unfolding s1_def using n(1,3) by (intro frame_Swap)
  have ok1: "idx_ok s1" unfolding s1_def using ok n(3,1) by (rule idx_ok_Swap)
  have k1: "kq s1 = (kq s)[0 := kq s ! (length (kq s) - 1), length (kq s) - 1 := kq s ! 0]"
    unfolding s1_def using n(1,3) by (simp add: kq_Swap length_kq n_def)
  have knil: "kq s \<noteq> []" using assms(2) by (simp add: kq_def)
  have d1: "down_inv (kq s1) 0 n"
    unfolding k1 using root_swap_down_inv[OF hp knil] by (simp add: length_kq n_def)
  have nle: "n \<le> length (q s1)" using n by (simp add: s1_def length_Swap)
  have f2: "frame s1 s2" and ok2: "idx_ok s2" and keep: "\<And>k. n \<le> k \<Longrightarrow> q s2 ! k = q s1 ! k"
    unfolding s2_def using down_frame[OF nle ok1, of 0] by simp_all
  have h2: "heap_le (kq s2) n" unfolding s2_def using down_heap[OF nle d1] .
  have len2: "length (q s2) = Suc n"
    using frame_length[OF f2] frame_length[OF f1] n by simp
  have last2: "q s2 ! n = q s ! 0"
    using keep[of n] n by (simp add: s1_def q_Swap)
  have split2: "q s2 = take n (q s2) @ [q s ! 0]"
    using len2 last2 by (metis lessI take_Suc_conv_app_nth take_all order_refl)
  have e: "heap_Pop s = Pop s2"
    by (simp add: heap_Pop_def Let_def Len_def down_def s2_def s1_def n_def split: prod.splits)
  have item: "fst (Pop s2) = q s ! 0"
    using last2 len2 by (simp add: Pop_def Let_def)
  have q3: "q s3 = take n (q s2)" using len2 by (simp add: s3_def Pop_def Let_def)
  have si3: "same_items s2 s3" by (simp add: s3_def same_items_def Pop_def Let_def)
  have m3: "\<And>a. a \<noteq> q s ! 0 \<Longrightarrow> mem s3 a = mem s2 a"
    using last2 len2 by (simp add: s3_def Pop_def Let_def)
  have d2: "distinct (q s2)" using ok2 by (simp add: idx_ok_def)
  have "distinct (take n (q s2) @ [q s ! 0])" using d2 split2 by simp
  then have notin: "q s ! 0 \<notin> set (take n (q s2))" by simp
  have ok3: "idx_ok s3"
    unfolding idx_ok_def
  proof (intro conjI allI impI)
    show "distinct (q s3)" using d2 by (simp add: q3)
  next
    fix i assume i: "i < length (q s3)"
    then have i2: "i < n" "i < length (q s2)" using len2 by (simp_all add: q3)
    then have e3: "q s3 ! i = q s2 ! i" by (simp add: q3)
    have "q s3 ! i \<in> set (q s3)" using i by simp
    then have "q s2 ! i \<noteq> q s ! 0" using notin e3 by (auto simp: q3)
    then have "mem s3 (q s2 ! i) = mem s2 (q s2 ! i)" by (rule m3)
    then show "index (mem s3 (q s3 ! i)) = int i"
      using e3 ok2 i2 by (simp add: idx_ok_def)
  qed
  have k3: "kq s3 = take n (kq s2)"
    using si3 by (simp add: kq_def q3 okey_def same_items_def take_map)
  have h3: "heap_le (kq s3) (length (q s3))"
    using heap_le_take[OF h2] len2 by (simp add: k3 q3 length_kq)
  have ms: "mset (q s) = add_mset (q s ! 0) (mset (q s3))"
  proof -
    have "mset (q s) = mset (q s2)" using f1 f2 by (simp add: frame_def)
    also have "\<dots> = mset (take n (q s2) @ [q s ! 0])" using split2 by simp
    finally show ?thesis by (simp add: q3)
  qed
  have "same_items s s3"
    using same_items_trans[OF frame_same_items[OF frame_trans[OF f1 f2]] si3] .
  then show ?thesis using e item ok3 h3 ms by (simp add: heap_ok_def s3_def)
qed

lemma promote_key_le:
  "priority it = 0 \<Longrightarrow> okey (it\<lparr>priority := prio\<rparr>) \<le> okey it"
  by (simp add: okey_def less_eq_prod_def less_prod_def)

lemma heap_Fix_promote:
  assumes ok: "heap_ok s" and i: "i < length (q s)"
    and z: "priority (mem s (q s ! i)) = 0"
    and s1_def: "s1 = s\<lparr>mem := (mem s)(q s ! i := (mem s (q s ! i))\<lparr>priority := prio\<rparr>)\<rparr>"
  shows "heap_ok (heap_Fix s1 i) \<and> frame s1 (heap_Fix s1 i)"
proof -
  let ?a = "q s ! i"
  let ?x = "okey ((mem s ?a)\<lparr>priority := prio\<rparr>)"
  have q1: "q s1 = q s" by (simp add: s1_def)
  have d: "distinct (q s)" and ix: "\<And>k. k < length (q s) \<Longrightarrow> index (mem s (q s ! k)) = int k"
    and hp: "heap_le (kq s) (length (kq s))"
    using ok by (simp_all add: heap_ok_def idx_ok_def length_kq)
  have "index (mem s1 a) = index (mem s a)" for a by (simp add: s1_def)
  then have ok1: "idx_ok s1"
    unfolding idx_ok_def using d ix by (simp add: q1)
  have k1: "kq s1 = (kq s)[i := ?x]"
  proof (rule nth_equalityI)
    show "length (kq s1) = length ((kq s)[i := ?x])" by (simp add: kq_def q1)
  next
    fix k assume "k < length (kq s1)"
    then have k: "k < length (q s)" by (simp add: kq_def q1)
    show "kq s1 ! k = (kq s)[i := ?x] ! k"
    proof (cases "k = i")
      case True
      then show ?thesis using i by (simp add: kq_def s1_def)
    next
      case False
      then have "q s ! k \<noteq> q s ! i" using d k i by (simp add: nth_eq_iff_index_eq)
      then show ?thesis using k False by (simp add: kq_def s1_def)
    qed
  qed
  have il: "i < length (kq s)" using i by (simp add: length_kq)
  have le: "?x \<le> kq s ! i" using promote_key_le[OF z] i by (simp add: kq_def)
  have u: "up_inv (kq s1) i" unfolding k1 using hp il le by (rule decrease_up_inv)
  have len1: "Len s1 = length (q s)" by (simp add: Len_def q1)
  have nm: "down_from s1 i (length (q s)) = (s1, i)"
  proof (rule down_nomove)
    show "length (q s) \<le> length (q s1)" by (simp add: q1)
  next
    fix k assume k: "k < length (q s)" "0 < k" "(k - 1) div 2 = i"
    have "k < length (kq s)" using k(1) by (simp add: length_kq)
    from decrease_children[OF hp il le this k(2,3)]
    show "\<not> kq s1 ! k < kq s1 ! i" by (simp add: k1)
  qed
  have e: "heap_Fix s1 i = up s1 i"
    by (simp add: heap_Fix_def down_def len1 nm)
  have i1: "i < length (q s1)" using i by (simp add: q1)
  have "frame s1 (up s1 i)" "idx_ok (up s1 i)" using up_frame[OF i1 ok1] by simp_all
  moreover have "heap_le (kq (up s1 i)) (length (q (up s1 i)))"
    using up_heap[OF i1 u] frame_length[OF \<open>frame s1 (up s1 i)\<close>] by simp
  ultimately show ?thesis by (simp add: e heap_ok_def)
qed

lemma heap_ok_cong:
  assumes "q s' = q s" "\<And>a. a \<in> set (q s) \<Longrightarrow> mem s' a = mem s a"
  shows "heap_ok s' = heap_ok s"
proof -
  have "kq s' = kq s" using assms by (simp add: kq_def)
  moreover have "idx_ok s' = idx_ok s" using assms by (simp add: idx_ok_def)
  ultimately show ?thesis by (simp add: heap_ok_def assms(1))
qed

lemma mset_keys: "mset (keys s) = image_mset (\<lambda>a. routePath (mem s a)) (mset (q s))"
  by (simp add: keys_def)

lemma set_keys: "set (keys s) = (\<lambda>a. routePath (mem s a)) ` set (q s)"
  by (simp add: keys_def)

lemma same_items_routePath: "same_items s s' \<Longrightarrow> routePath (mem s' a) = routePath (mem s a)"
  by (simp add: same_items_def)

lemma same_items_priority: "same_items s s' \<Longrightarrow> priority (mem s' a) = priority (mem s a)"
  by (simp add: same_items_def)

lemma queue_ok_dom: "queue_ok s \<Longrightarrow> dom (pathIdx s) = set (keys s)"
  by (auto simp: queue_ok_def set_keys dom_def)

lemma queue_ok_distinct_keys:
  assumes "queue_ok s"
  shows "distinct (keys s)"
proof -
  have d: "distinct (q s)" using assms by (simp add: queue_ok_def heap_ok_def idx_ok_def)
  have "inj_on (\<lambda>a. routePath (mem s a)) (set (q s))"
  proof (rule inj_onI)
    fix a b assume "a \<in> set (q s)" "b \<in> set (q s)" "routePath (mem s a) = routePath (mem s b)"
    then have "pathIdx s (routePath (mem s a)) = Some a" "pathIdx s (routePath (mem s a)) = Some b"
      using assms by (simp_all add: queue_ok_def)
    then show "a = b" by simp
  qed
  then show ?thesis using d by (simp add: keys_def distinct_map)
qed

lemma addOrUpdate_keep:
  "pathIdx s rp = Some a \<Longrightarrow> \<not> (priority (mem s a) = 0 \<and> prio \<noteq> 0) \<Longrightarrow>
   addOrUpdate s rp prio = Inr s"
  by (auto simp: addOrUpdate_def)

lemma addOrUpdate_absent:
  assumes ok: "queue_ok s" and ab: "pathIdx s rp = None"
  shows "\<exists>s'. addOrUpdate s rp prio = Inr s' \<and> queue_ok s' \<and>
           currentPriority s' = currentPriority s \<and>
           prio_of s' = (prio_of s)(rp \<mapsto> prio) \<and>
           mset (keys s') = add_mset rp (mset (keys s))"
proof -
  define item where "item = nxt s"
  define s1 where "s1 = s\<lparr>mem := (mem s)(item := \<lparr>priority = prio, routePath = rp, index = 0\<rparr>),
                          nxt := Suc item\<rparr>"
  define s2 where "s2 = heap_Push s1 item"
  define s3 where "s3 = s2\<lparr>pathIdx := (pathIdx s2)(rp \<mapsto> item)\<rparr>"
  have e: "addOrUpdate s rp prio = Inr s3"
    using ab by (simp add: addOrUpdate_def Let_def s3_def s2_def s1_def item_def)
  have hok: "heap_ok s" and pi: "\<And>k a. pathIdx s k = Some a \<longleftrightarrow> a \<in> set (q s) \<and> routePath (mem s a) = k"
    and lt: "\<And>a. a \<in> set (q s) \<Longrightarrow> a < nxt s"
    using ok by (simp_all add: queue_ok_def)
  have fresh: "item \<notin> set (q s)" using lt by (auto simp: item_def)
  have q1: "q s1 = q s" by (simp add: s1_def)
  have m1: "\<And>a. a \<noteq> item \<Longrightarrow> mem s1 a = mem s a" by (simp add: s1_def)
  have mi: "priority (mem s1 item) = prio" "routePath (mem s1 item) = rp" by (simp_all add: s1_def)
  have hok1: "heap_ok s1"
    using heap_ok_cong[of s1 s] q1 m1 fresh hok by metis
  have fresh1: "item \<notin> set (q s1)" using fresh by (simp add: q1)
  have hok2: "heap_ok s2" and si: "same_items s1 s2" and ms: "mset (q s2) = add_mset item (mset (q s))"
    using heap_Push_props[OF hok1 fresh1] by (simp_all add: s2_def q1)
  have set2: "set (q s2) = insert item (set (q s))" using ms by (metis set_mset_mset set_mset_add_mset_insert)
  have q3: "q s3 = q s2" and m3: "mem s3 = mem s2" by (simp_all add: s3_def)
  have hok3: "heap_ok s3" using heap_ok_cong[of s3 s2] q3 m3 hok2 by simp
  have rp3: "\<And>a. routePath (mem s3 a) = (if a = item then rp else routePath (mem s a))"
    using same_items_routePath[OF si] mi m1 by (simp add: m3)
  have pr3: "\<And>a. priority (mem s3 a) = (if a = item then prio else priority (mem s a))"
    using same_items_priority[OF si] mi m1 by (simp add: m3)
  have p3: "pathIdx s3 = (pathIdx s)(rp \<mapsto> item)"
    using si by (simp add: s3_def same_items_def s1_def)
  have norp: "\<And>a. a \<in> set (q s) \<Longrightarrow> routePath (mem s a) \<noteq> rp"
    using pi ab by (metis option.distinct(1))
  have c1: "pathIdx s3 k = Some a \<longleftrightarrow> a \<in> set (q s3) \<and> routePath (mem s3 a) = k" for k a
    using pi[of k a] fresh norp by (auto simp: p3 q3 set2 rp3)
  have c2: "\<forall>a\<in>set (q s3). a < nxt s3"
    using lt si by (auto simp: q3 set2 s3_def same_items_def s1_def item_def less_Suc_eq)
  have qok: "queue_ok s3" using hok3 c1 c2 by (simp add: queue_ok_def)
  have cp: "currentPriority s3 = currentPriority s"
    using si by (simp add: s3_def same_items_def s1_def)
  have po: "prio_of s3 = (prio_of s)(rp \<mapsto> prio)"
  proof
    fix k show "prio_of s3 k = ((prio_of s)(rp \<mapsto> prio)) k"
    proof (cases "k = rp")
      case True then show ?thesis by (simp add: prio_of_def p3 pr3)
    next
      case False
      show ?thesis
      proof (cases "pathIdx s k")
        case None then show ?thesis using False by (simp add: prio_of_def p3)
      next
        case (Some a)
        then have "a \<noteq> item" using pi[of k a] fresh by auto
        then show ?thesis using False Some by (simp add: prio_of_def p3 pr3)
      qed
    qed
  qed
  have mk: "mset (keys s3) = add_mset rp (mset (keys s))"
  proof -
    have "image_mset (\<lambda>a. routePath (mem s3 a)) (mset (q s)) = image_mset (\<lambda>a. routePath (mem s a)) (mset (q s))"
      using fresh by (intro image_mset_cong) (auto simp: rp3)
    then show ?thesis by (simp add: mset_keys q3 ms rp3)
  qed
  show ?thesis using e qok cp po mk by blast
qed

lemma addOrUpdate_promote:
  assumes ok: "queue_ok s" and pr: "pathIdx s rp = Some a"
    and z: "priority (mem s a) = 0" and nz: "prio \<noteq> 0"
  shows "\<exists>s'. addOrUpdate s rp prio = Inr s' \<and> queue_ok s' \<and>
           currentPriority s' = currentPriority s \<and>
           prio_of s' = (prio_of s)(rp \<mapsto> prio) \<and>
           mset (keys s') = mset (keys s)"
proof -
  have hok: "heap_ok s" and pi: "\<And>k a. pathIdx s k = Some a \<longleftrightarrow> a \<in> set (q s) \<and> routePath (mem s a) = k"
    and lt: "\<And>a. a \<in> set (q s) \<Longrightarrow> a < nxt s"
    using ok by (simp_all add: queue_ok_def)
  have ain: "a \<in> set (q s)" and arp: "routePath (mem s a) = rp" using pi[of rp a] pr by simp_all
  then obtain i where i: "i < length (q s)" "q s ! i = a" by (auto simp: in_set_conv_nth)
  have ix: "index (mem s a) = int i" using hok i by (auto simp: heap_ok_def idx_ok_def)
  define s1 where "s1 = s\<lparr>mem := (mem s)(q s ! i := (mem s (q s ! i))\<lparr>priority := prio\<rparr>)\<rparr>"
  define s2 where "s2 = heap_Fix s1 i"
  have zi: "priority (mem s (q s ! i)) = 0" using z i by simp
  have hok2: "heap_ok s2" and f: "frame s1 s2"
    using heap_Fix_promote[OF hok i(1) zi s1_def] by (simp_all add: s2_def)
  have "heap_Fix_at s1 (index (mem s1 a)) = Inr s2"
    using ix i by (simp add: heap_Fix_at_def s1_def s2_def Len_def)
  then have e: "addOrUpdate s rp prio = Inr s2"
    using pr z nz i by (simp add: addOrUpdate_def Let_def s1_def)
  have q2: "mset (q s2) = mset (q s)" "set (q s2) = set (q s)"
    using f frame_set[OF f] by (simp_all add: frame_def s1_def)
  have rp2: "\<And>b. routePath (mem s2 b) = routePath (mem s b)"
    using f by (simp add: frame_def s1_def)
  have pr2: "\<And>b. priority (mem s2 b) = (if b = a then prio else priority (mem s b))"
    using f i by (simp add: frame_def s1_def)
  have p2: "pathIdx s2 = pathIdx s" "nxt s2 = nxt s" "currentPriority s2 = currentPriority s"
    using f by (simp_all add: frame_def s1_def)
  have qok: "queue_ok s2"
    using hok2 pi lt by (simp add: queue_ok_def p2 q2 rp2)
  have po: "prio_of s2 = (prio_of s)(rp \<mapsto> prio)"
  proof
    fix k show "prio_of s2 k = ((prio_of s)(rp \<mapsto> prio)) k"
    proof (cases "k = rp")
      case True then show ?thesis using pr by (simp add: prio_of_def p2 pr2)
    next
      case False
      show ?thesis
      proof (cases "pathIdx s k")
        case None then show ?thesis using False by (simp add: prio_of_def p2)
      next
        case (Some b)
        then have "b \<noteq> a" using pi[of k b] arp False by auto
        then show ?thesis using False Some by (simp add: prio_of_def p2 pr2)
      qed
    qed
  qed
  have mk: "mset (keys s2) = mset (keys s)" by (simp add: mset_keys q2 rp2)
  show ?thesis using e qok p2(3) po mk by blast
qed

lemma settle_idem: "settle prio (settle prio x) = settle prio x"
  by (cases x) auto

lemma addOrUpdate_spec:
  assumes ok: "queue_ok s"
  shows "\<exists>s'. addOrUpdate s rp prio = Inr s' \<and> queue_ok s' \<and>
           currentPriority s' = currentPriority s \<and>
           prio_of s' = (prio_of s)(rp := settle prio (prio_of s rp)) \<and>
           mset (keys s') = (if pathIdx s rp = None then add_mset rp (mset (keys s)) else mset (keys s))"
proof (cases "pathIdx s rp")
  case None
  then have "prio_of s rp = None" by (simp add: prio_of_def)
  then show ?thesis using addOrUpdate_absent[OF ok None, of prio] None by simp
next
  case (Some a)
  then have p: "prio_of s rp = Some (priority (mem s a))" by (simp add: prio_of_def)
  show ?thesis
  proof (cases "priority (mem s a) = 0 \<and> prio \<noteq> 0")
    case True
    then show ?thesis using addOrUpdate_promote[OF ok Some, of prio] Some p by simp
  next
    case False
    then have "addOrUpdate s rp prio = Inr s" using Some by (rule addOrUpdate_keep[rotated])
    moreover have "(prio_of s)(rp := settle prio (prio_of s rp)) = prio_of s"
      using False p by (auto simp: fun_eq_iff)
    ultimately show ?thesis using ok Some by simp
  qed
qed

lemma addAll_spec:
  "queue_ok s \<Longrightarrow>
   \<exists>s'. addAll s rps prio = Inr s' \<and> queue_ok s' \<and>
        currentPriority s' = currentPriority s \<and>
        (\<forall>k. prio_of s' k = (if k \<in> set rps then settle prio (prio_of s k) else prio_of s k))"
proof (induction rps arbitrary: s)
  case Nil
  then show ?case by simp
next
  case (Cons rp rps)
  obtain s1 where s1: "addOrUpdate s rp prio = Inr s1" "queue_ok s1"
    "currentPriority s1 = currentPriority s"
    "prio_of s1 = (prio_of s)(rp := settle prio (prio_of s rp))"
    using addOrUpdate_spec[OF Cons.prems, of rp prio] by blast
  obtain s2 where s2: "addAll s1 rps prio = Inr s2" "queue_ok s2"
    "currentPriority s2 = currentPriority s1"
    "\<And>k. prio_of s2 k = (if k \<in> set rps then settle prio (prio_of s1 k) else prio_of s1 k)"
    using Cons.IH[OF s1(2)] by blast
  have "addAll s (rp # rps) prio = Inr s2" using s1(1) s2(1) by simp
  moreover have "prio_of s2 k = (if k \<in> set (rp # rps) then settle prio (prio_of s k) else prio_of s k)" for k
    using s2(4)[of k] s1(4) by (simp add: settle_idem)
  ultimately show ?case using s2(2,3) s1(3) by auto
qed

lemma enqueue_spec:
  assumes ok: "queue_ok s"
  shows "\<exists>s'. enqueue s ivd bg = Inr s' \<and> queue_ok s' \<and>
           currentPriority s' = currentPriority s + 1 \<and>
           (\<forall>k. prio_of s' k =
              (let m1 = (if k \<in> set ivd then settle (currentPriority s + 1) (prio_of s k) else prio_of s k)
               in if k \<in> set bg then settle 0 m1 else m1))"
proof -
  define s1 where "s1 = s\<lparr>currentPriority := currentPriority s + 1\<rparr>"
  have ok1: "queue_ok s1"
    using ok heap_ok_cong[of s1 s] by (simp add: queue_ok_def s1_def)
  have p1: "prio_of s1 = prio_of s" by (simp add: prio_of_def s1_def fun_eq_iff)
  have c1: "currentPriority s1 = currentPriority s + 1" by (simp add: s1_def)
  obtain s2 where s2: "addAll s1 ivd (currentPriority s + 1) = Inr s2" "queue_ok s2"
    "currentPriority s2 = currentPriority s1"
    "\<And>k. prio_of s2 k = (if k \<in> set ivd then settle (currentPriority s + 1) (prio_of s1 k) else prio_of s1 k)"
    using addAll_spec[OF ok1, of ivd "currentPriority s + 1"] by blast
  obtain s3 where s3: "addAll s2 bg 0 = Inr s3" "queue_ok s3"
    "currentPriority s3 = currentPriority s2"
    "\<And>k. prio_of s3 k = (if k \<in> set bg then settle 0 (prio_of s2 k) else prio_of s2 k)"
    using addAll_spec[OF s2(2), of bg 0] by blast
  have "enqueue s ivd bg = Inr s3"
    using s2(1) s3(1) by (simp add: enqueue_def Let_def s1_def)
  then show ?thesis using s3(2,3,4) s2(3,4) c1 p1 by (simp add: Let_def)
qed

lemma pop_empty: "q s = [] \<Longrightarrow> pop s = (None, s)"
  by (simp add: pop_def Len_def)

lemma pop_spec:
  assumes ok: "queue_ok s" and ne: "q s \<noteq> []"
  shows "\<exists>k p s'. pop s = (Some k, s') \<and> queue_ok s' \<and>
           currentPriority s' = currentPriority s \<and>
           prio_of s k = Some p \<and> prio_of s' = (prio_of s)(k := None) \<and>
           (\<forall>k' p'. prio_of s k' = Some p' \<longrightarrow> (p = 0, p, k) \<le> (p' = 0, p', k')) \<and>
           mset (keys s) = add_mset k (mset (keys s'))"
proof -
  have hok: "heap_ok s" and pi: "\<And>k a. pathIdx s k = Some a \<longleftrightarrow> a \<in> set (q s) \<and> routePath (mem s a) = k"
    and lt: "\<And>a. a \<in> set (q s) \<Longrightarrow> a < nxt s"
    using ok by (simp_all add: queue_ok_def)
  define item where "item = q s ! 0"
  define s1 where "s1 = snd (heap_Pop s)"
  define k where "k = routePath (mem s item)"
  define s2 where "s2 = s1\<lparr>pathIdx := (pathIdx s1)(k := None)\<rparr>"
  have hp: "heap_Pop s = (item, s1)" and hok1: "heap_ok s1" and si: "same_items s s1"
    and ms: "mset (q s) = add_mset item (mset (q s1))"
    using heap_Pop_props[OF hok ne] by (simp_all add: item_def s1_def prod_eq_iff)
  have rp1: "\<And>a. routePath (mem s1 a) = routePath (mem s a)"
    and pr1: "\<And>a. priority (mem s1 a) = priority (mem s a)"
    and p1: "pathIdx s1 = pathIdx s" "nxt s1 = nxt s" "currentPriority s1 = currentPriority s"
    using si by (simp_all add: same_items_def)
  have e: "pop s = (Some k, s2)"
    using ne hp by (simp add: pop_def Len_def s2_def k_def rp1)
  have iin: "item \<in> set (q s)" using ne by (simp add: item_def)
  have d: "distinct (q s)" using hok by (simp add: heap_ok_def idx_ok_def)
  have "distinct (item # q s1)" using d ms by (metis distinct_count_atmost_1 mset.simps(2) set_mset_mset)
  then have notin: "item \<notin> set (q s1)" by simp
  have set1: "set (q s) = insert item (set (q s1))" using ms by (metis set_mset_mset set_mset_add_mset_insert)
  have pk: "pathIdx s k = Some item" using pi[of k item] iin by (simp add: k_def)
  have q2: "q s2 = q s1" "mem s2 = mem s1" by (simp_all add: s2_def)
  have hok2: "heap_ok s2" using heap_ok_cong[of s2 s1] hok1 q2 by simp
  have c1: "pathIdx s2 k' = Some b \<longleftrightarrow> b \<in> set (q s2) \<and> routePath (mem s2 b) = k'" for k' b
  proof (cases "k' = k")
    case True
    have "\<not> (b \<in> set (q s1) \<and> routePath (mem s b) = k)"
      using pi[of k b] pk notin by (auto simp: set1)
    then show ?thesis using True by (simp add: s2_def rp1)
  next
    case False
    have "b \<in> set (q s) \<and> routePath (mem s b) = k' \<longleftrightarrow> b \<in> set (q s1) \<and> routePath (mem s b) = k'"
      using False by (auto simp: set1 k_def)
    then show ?thesis using False pi[of k' b] by (simp add: s2_def rp1 p1)
  qed
  have c2: "\<forall>a\<in>set (q s2). a < nxt s2" using lt by (simp add: q2 set1 s2_def p1)
  have qok: "queue_ok s2" using hok2 c1 c2 by (simp add: queue_ok_def)
  have cp: "currentPriority s2 = currentPriority s" by (simp add: s2_def p1)
  have pk': "prio_of s k = Some (priority (mem s item))" using pk by (simp add: prio_of_def)
  have po: "prio_of s2 = (prio_of s)(k := None)"
    by (auto simp: fun_eq_iff prio_of_def s2_def p1 pr1)
  have mn: "(priority (mem s item) = 0, priority (mem s item), k) \<le> (p' = 0, p', k')"
    if "prio_of s k' = Some p'" for k' p'
  proof -
    from that obtain b where b: "pathIdx s k' = Some b" "p' = priority (mem s b)"
      by (auto simp: prio_of_def)
    then have "b \<in> set (q s)" "routePath (mem s b) = k'" using pi[of k' b] by simp_all
    then show ?thesis using heap_ok_min[OF hok, of b] b(2) by (simp add: okey_def item_def k_def)
  qed
  have mk: "mset (keys s) = add_mset k (mset (keys s2))"
    by (simp add: mset_keys q2 ms rp1 k_def)
  show ?thesis using e qok cp pk' po mn mk by blast
qed

lemma newQueue_eq:
  "newQueue = \<lparr>currentPriority = 0, q = [], pathIdx = Map.empty, mem = (\<lambda>_. emptyItem), nxt = 0\<rparr>"
  by (simp add: newQueue_def heap_Init_def Len_def)

lemma queue_ok_newQueue: "queue_ok newQueue"
  by (simp add: newQueue_eq queue_ok_def heap_ok_def idx_ok_def kq_def heap_le_def)

lemma pop_ok:
  assumes "queue_ok s" "pop s = (r, s')"
  shows "queue_ok s'"
proof (cases "q s = []")
  case True
  then show ?thesis using assms pop_empty by simp
next
  case False
  then show ?thesis using pop_spec[OF assms(1) False] assms(2) by auto
qed

lemma reachable_ok: "reachable s \<Longrightarrow> queue_ok s"
proof (induction rule: reachable.induct)
  case init
  show ?case by (rule queue_ok_newQueue)
next
  case (enq s invalidated background s')
  then show ?case using enqueue_spec[of s invalidated background] by auto
next
  case (deq s r s')
  then show ?case using pop_ok by blast
qed

lemma exec_total:
  "queue_ok s \<Longrightarrow> \<exists>out s'. exec s ops = Inr (out, s') \<and> queue_ok s'"
proof (induction ops arbitrary: s)
  case Nil
  then show ?case by simp
next
  case (Cons x ops)
  show ?case
  proof (cases x)
    case (OpEnqueue i b)
    obtain s1 where "enqueue s i b = Inr s1" "queue_ok s1"
      using enqueue_spec[OF Cons.prems, of i b] by blast
    then show ?thesis using Cons.IH[of s1] OpEnqueue by auto
  next
    case OpPop
    obtain r s1 where p: "pop s = (r, s1)" by (cases "pop s")
    then have "queue_ok s1" using pop_ok Cons.prems by blast
    then show ?thesis using Cons.IH[of s1] OpPop p by auto
  qed
qed

lemma exec_reachable:
  "reachable s \<Longrightarrow> exec s ops = Inr (out, s') \<Longrightarrow> reachable s'"
proof (induction ops arbitrary: s out)
  case Nil
  then show ?case by simp
next
  case (Cons x ops)
  show ?case
  proof (cases x)
    case (OpEnqueue i b)
    then obtain s1 where s1: "enqueue s i b = Inr s1" "exec s1 ops = Inr (out, s')"
      using Cons.prems(2) by (auto split: sum.splits)
    then show ?thesis using Cons.IH[of s1 out] reachable.enq[OF Cons.prems(1)] by blast
  next
    case OpPop
    obtain r s1 where p: "pop s = (r, s1)" by (cases "pop s")
    then obtain out1 where "exec s1 ops = Inr (out1, s')"
      using Cons.prems(2) OpPop by (auto split: sum.splits prod.splits)
    then show ?thesis using Cons.IH[of s1 out1] reachable.deq[OF Cons.prems(1) p] by blast
  qed
qed

lemma exec_after:
  "queue_ok s \<Longrightarrow> exec s ops = Inr (popped s ops, after s ops)"
  using exec_total[of s ops] by (auto simp: after_def popped_def)

lemma reachable_after: "reachable s \<Longrightarrow> reachable (after s ops)"
  using exec_after[OF reachable_ok, of s ops] exec_reachable by blast

lemma entries_prio_of:
  assumes "queue_ok s"
  shows "(k, p) \<in> set (entries s) \<longleftrightarrow> prio_of s k = Some p"
proof -
  have pi: "\<And>k a. pathIdx s k = Some a \<longleftrightarrow> a \<in> set (q s) \<and> routePath (mem s a) = k"
    using assms by (simp add: queue_ok_def)
  show ?thesis
  proof
    assume "(k, p) \<in> set (entries s)"
    then obtain a where "a \<in> set (q s)" "routePath (mem s a) = k" "priority (mem s a) = p"
      by (auto simp: entries_def)
    then show "prio_of s k = Some p" using pi[of k a] by (simp add: prio_of_def)
  next
    assume "prio_of s k = Some p"
    then obtain a where "pathIdx s k = Some a" "priority (mem s a) = p"
      by (auto simp: prio_of_def)
    then show "(k, p) \<in> set (entries s)" using pi[of k a] by (auto simp: entries_def)
  qed
qed

lemma keys_entries: "keys s = map fst (entries s)"
  by (simp add: keys_def entries_def)

lemma exec_keep:
  "queue_ok s \<Longrightarrow> prio_of s k = Some p \<Longrightarrow> p \<noteq> 0 \<Longrightarrow> exec s ops = Inr (out, s') \<Longrightarrow>
   Some k \<notin> set out \<Longrightarrow> prio_of s' k = Some p"
proof (induction ops arbitrary: s out)
  case Nil
  then show ?case by simp
next
  case (Cons x ops)
  show ?case
  proof (cases x)
    case (OpEnqueue i b)
    obtain s1 where s1: "enqueue s i b = Inr s1" "queue_ok s1"
      "\<And>k. prio_of s1 k =
              (let m1 = (if k \<in> set i then settle (currentPriority s + 1) (prio_of s k) else prio_of s k)
               in if k \<in> set b then settle 0 m1 else m1)"
      using enqueue_spec[OF Cons.prems(1), of i b] by blast
    have "prio_of s1 k = Some p" using s1(3)[of k] Cons.prems(2,3) by (simp add: Let_def)
    moreover have "exec s1 ops = Inr (out, s')" using Cons.prems(4) OpEnqueue s1(1) by simp
    ultimately show ?thesis using Cons.IH[OF s1(2) _ Cons.prems(3)] Cons.prems(5) by blast
  next
    case OpPop
    obtain r s1 where p: "pop s = (r, s1)" by (cases "pop s")
    then obtain out1 where o: "exec s1 ops = Inr (out1, s')" "out = r # out1"
      using Cons.prems(4) OpPop by (auto split: sum.splits prod.splits)
    have ok1: "queue_ok s1" using pop_ok[OF Cons.prems(1) p] .
    have "prio_of s1 k = Some p"
    proof (cases "q s = []")
      case True
      then show ?thesis using p pop_empty[OF True] Cons.prems(2) by simp
    next
      case False
      then obtain k0 where "r = Some k0" "prio_of s1 = (prio_of s)(k0 := None)"
        using pop_spec[OF Cons.prems(1) False] p by auto
      then show ?thesis using Cons.prems(2,5) o(2) by auto
    qed
    then show ?thesis using Cons.IH[OF ok1 _ Cons.prems(3) o(1)] Cons.prems(5) o(2) by simp
  qed
qed

lemma settled_noop: "settled s k prio \<Longrightarrow> addOrUpdate s k prio = Inr s"
  by (auto simp: settled_def prio_of_def addOrUpdate_keep)

lemma settled_after:
  assumes "queue_ok s" "addOrUpdate s k prio = Inr s'"
  shows "settled s' k prio"
proof -
  have "prio_of s' k = settle prio (prio_of s k)"
    using addOrUpdate_spec[OF assms(1), of k prio] assms(2) by auto
  then show ?thesis by (cases "prio_of s k") (auto simp: settled_def)
qed

lemma settled_kept:
  assumes "queue_ok s" "settled s k prio" "addOrUpdate s k' prio' = Inr s'"
    and "prio' = prio \<or> prio' = 0"
  shows "settled s' k prio"
proof -
  have e: "prio_of s' = (prio_of s)(k' := settle prio' (prio_of s k'))"
    using addOrUpdate_spec[OF assms(1), of k' prio'] assms(3) by auto
  show ?thesis
  proof (cases "k' = k")
    case True
    then show ?thesis using assms(2,4) e by (auto simp: settled_def)
  next
    case False
    then show ?thesis using assms(2) e by (simp add: settled_def)
  qed
qed

lemma addAll_skip:
  "queue_ok s \<Longrightarrow> \<forall>x\<in>X. settled s x prio \<Longrightarrow>
   addAll s xs prio = addAll s (filter (\<lambda>k. k \<notin> X) xs) prio"
proof (induction xs arbitrary: s)
  case Nil
  then show ?case by simp
next
  case (Cons y xs)
  show ?case
  proof (cases "y \<in> X")
    case True
    then have "addOrUpdate s y prio = Inr s" using Cons.prems(2) settled_noop by blast
    then show ?thesis using True Cons.IH[OF Cons.prems] by simp
  next
    case False
    obtain s1 where s1: "addOrUpdate s y prio = Inr s1" "queue_ok s1"
      using addOrUpdate_spec[OF Cons.prems(1), of y prio] by blast
    have "\<forall>x\<in>X. settled s1 x prio"
      using settled_kept[OF Cons.prems(1) _ s1(1)] Cons.prems(2) by blast
    then show ?thesis using False s1 Cons.IH[of s1] by simp
  qed
qed

lemma addAll_dedup:
  "queue_ok s \<Longrightarrow> addAll s xs prio = addAll s (dedup xs) prio"
proof (induction xs arbitrary: s)
  case Nil
  then show ?case by simp
next
  case (Cons x xs)
  obtain s1 where s1: "addOrUpdate s x prio = Inr s1" "queue_ok s1"
    using addOrUpdate_spec[OF Cons.prems, of x prio] by blast
  have st: "\<forall>k\<in>{x}. settled s1 k prio" using settled_after[OF Cons.prems s1(1)] by simp
  have "addAll s1 xs prio = addAll s1 (dedup xs) prio" using Cons.IH[OF s1(2)] .
  also have "\<dots> = addAll s1 (filter (\<lambda>k. k \<notin> {x}) (dedup xs)) prio"
    using addAll_skip[OF s1(2) st] .
  finally show ?case using s1(1) by simp
qed

lemma set_dedup: "set (dedup xs) = set xs"
  by (induction xs) auto

lemma distinct_dedup: "distinct (dedup xs)"
  by (induction xs) (auto simp: set_dedup)

lemma unat_succ:
  fixes c :: uint64
  assumes "unat c + 1 < 2 ^ 64"
  shows "unat (c + 1) = unat c + 1" and "c + 1 \<noteq> 0" and "c \<le> c + 1"
proof -
  have "unat c + unat (1 :: uint64) < 2 ^ LENGTH(64)" using assms by simp
  then have "unat (c + 1) = unat c + unat (1 :: uint64)" by (simp only: unat_add_lem)
  then show u: "unat (c + 1) = unat c + 1" by simp
  then show "c + 1 \<noteq> 0" by (metis add_is_0 unat_0 zero_neq_one)
  show "c \<le> c + 1" using u by (simp add: word_le_nat_alt)
qed

lemma enqueue_bounded:
  assumes ok: "queue_ok s" and b: "prio_bounded s" and nw: "unat (currentPriority s) + 1 < 2 ^ 64"
    and e: "enqueue s i bg = Inr s'"
  shows "prio_bounded s' \<and> unat (currentPriority s') = unat (currentPriority s) + 1"
proof -
  let ?g = "currentPriority s + 1"
  have s': "currentPriority s' = ?g"
    "\<And>k. prio_of s' k =
              (let m1 = (if k \<in> set i then settle ?g (prio_of s k) else prio_of s k)
               in if k \<in> set bg then settle 0 m1 else m1)"
    using enqueue_spec[OF ok, of i bg] e by auto
  have le: "currentPriority s \<le> ?g" using unat_succ(3)[OF nw] .
  have "p \<le> ?g" if "prio_of s' k = Some p" for k p
  proof -
    have old: "\<And>p0. prio_of s k = Some p0 \<Longrightarrow> p0 \<le> ?g"
      using b le by (auto simp: prio_bounded_def intro: order_trans)
    show ?thesis
      using that s'(2)[of k] old
      by (cases "prio_of s k") (auto simp: Let_def split: if_splits)
  qed
  then show ?thesis using s'(1) unat_succ(1)[OF nw] by (simp add: prio_bounded_def)
qed

lemma pop_bounded:
  assumes "queue_ok s" "prio_bounded s" "pop s = (r, s')"
  shows "prio_bounded s' \<and> currentPriority s' = currentPriority s"
proof (cases "q s = []")
  case True
  then show ?thesis using assms pop_empty[OF True] by simp
next
  case False
  obtain k where "currentPriority s' = currentPriority s" "prio_of s' = (prio_of s)(k := None)"
    using pop_spec[OF assms(1) False] assms(3) by auto
  then show ?thesis using assms(2) by (auto simp: prio_bounded_def split: if_splits)
qed

lemma exec_bounded:
  "queue_ok s \<Longrightarrow> prio_bounded s \<Longrightarrow> unat (currentPriority s) + count_enq ops < 2 ^ 64 \<Longrightarrow>
   exec s ops = Inr (out, s') \<Longrightarrow>
   prio_bounded s' \<and> unat (currentPriority s') = unat (currentPriority s) + count_enq ops"
proof (induction ops arbitrary: s out)
  case Nil
  then show ?case by simp
next
  case (Cons x ops)
  show ?case
  proof (cases x)
    case (OpEnqueue i b)
    then obtain s1 where s1: "enqueue s i b = Inr s1" "exec s1 ops = Inr (out, s')"
      using Cons.prems(4) by (auto split: sum.splits)
    have nw: "unat (currentPriority s) + 1 < 2 ^ 64" using Cons.prems(3) OpEnqueue by simp
    have b1: "prio_bounded s1" "unat (currentPriority s1) = unat (currentPriority s) + 1"
      using enqueue_bounded[OF Cons.prems(1,2) nw s1(1)] by simp_all
    have ok1: "queue_ok s1" using enqueue_spec[OF Cons.prems(1), of i b] s1(1) by auto
    have "unat (currentPriority s1) + count_enq ops < 2 ^ 64" using Cons.prems(3) OpEnqueue b1(2) by simp
    then show ?thesis using Cons.IH[OF ok1 b1(1) _ s1(2)] b1(2) OpEnqueue by simp
  next
    case OpPop
    obtain r s1 where p: "pop s = (r, s1)" by (cases "pop s")
    then obtain out1 where o: "exec s1 ops = Inr (out1, s')"
      using Cons.prems(4) OpPop by (auto split: sum.splits prod.splits)
    have b1: "prio_bounded s1" "currentPriority s1 = currentPriority s"
      using pop_bounded[OF Cons.prems(1,2) p] by simp_all
    have ok1: "queue_ok s1" using pop_ok[OF Cons.prems(1) p] .
    show ?thesis using Cons.IH[OF ok1 b1(1) _ o] Cons.prems(3) b1(2) OpPop by simp
  qed
qed

lemma queued_nonempty:
  "queue_ok s \<Longrightarrow> prio_of s k = Some p \<Longrightarrow> q s \<noteq> []"
  by (auto simp: queue_ok_def prio_of_def)

lemma pops_in_order:
  "queue_ok s \<Longrightarrow> prio_of s x = Some px \<Longrightarrow> prio_of s y = Some py \<Longrightarrow> px \<noteq> 0 \<Longrightarrow> px < py \<Longrightarrow>
   exec s ops = Inr (out, s') \<Longrightarrow> Some y \<in> set out \<Longrightarrow>
   Some x \<in> set (takeWhile (\<lambda>r. r \<noteq> Some y) out)"
proof (induction ops arbitrary: s out)
  case Nil
  then show ?case by simp
next
  case (Cons c ops)
  have py0: "py \<noteq> 0" using Cons.prems(5) by (metis word_not_simps(1))
  show ?case
  proof (cases c)
    case (OpEnqueue i b)
    then obtain s1 where s1: "enqueue s i b = Inr s1" "exec s1 ops = Inr (out, s')"
      using Cons.prems(6) by (auto split: sum.splits)
    have ok1: "queue_ok s1"
      and pr: "\<And>k. prio_of s1 k =
              (let m1 = (if k \<in> set i then settle (currentPriority s + 1) (prio_of s k) else prio_of s k)
               in if k \<in> set b then settle 0 m1 else m1)"
      using enqueue_spec[OF Cons.prems(1), of i b] s1(1) by auto
    have "prio_of s1 x = Some px" "prio_of s1 y = Some py"
      using pr[of x] pr[of y] Cons.prems(2,3,4) py0 by (simp_all add: Let_def)
    then show ?thesis using Cons.IH[OF ok1 _ _ Cons.prems(4,5) s1(2) Cons.prems(7)] by blast
  next
    case OpPop
    obtain r s1 where p: "pop s = (r, s1)" by (cases "pop s")
    then obtain out1 where o: "exec s1 ops = Inr (out1, s')" "out = r # out1"
      using Cons.prems(6) OpPop by (auto split: sum.splits prod.splits)
    have ne: "q s \<noteq> []" using queued_nonempty[OF Cons.prems(1,2)] .
    obtain k p0 where k: "r = Some k" "queue_ok s1" "prio_of s k = Some p0"
      "prio_of s1 = (prio_of s)(k := None)"
      "\<And>k' p'. prio_of s k' = Some p' \<Longrightarrow> (p0 = 0, p0, k) \<le> (p' = 0, p', k')"
      using pop_spec[OF Cons.prems(1) ne] p by auto
    have xy: "x \<noteq> y" using Cons.prems(2,3,5) by auto
    have ky: "k \<noteq> y"
    proof
      assume "k = y"
      then have "p0 = py" using k(3) Cons.prems(3) by simp
      then have "(py = 0, py, y) \<le> (px = 0, px, x)" using k(5)[OF Cons.prems(2)] \<open>k = y\<close> by simp
      then show False using Cons.prems(4,5) py0 by (auto simp: less_eq_prod_def less_prod_def)
    qed
    show ?thesis
    proof (cases "k = x")
      case True
      then show ?thesis using o(2) k(1) xy by simp
    next
      case False
      have "prio_of s1 x = Some px" "prio_of s1 y = Some py"
        using k(4) False ky Cons.prems(2,3) by simp_all
      moreover have "Some y \<in> set out1" using Cons.prems(7) o(2) k(1) ky by simp
      ultimately have "Some x \<in> set (takeWhile (\<lambda>r. r \<noteq> Some y) out1)"
        using Cons.IH[OF k(2) _ _ Cons.prems(4,5) o(1)] by blast
      then show ?thesis using o(2) k(1) ky by simp
    qed
  qed
qed

lemma exec_append:
  "exec s (a @ b) =
     (case exec s a of
        Inl e \<Rightarrow> Inl e
      | Inr (o1, s1) \<Rightarrow> (case exec s1 b of Inl e \<Rightarrow> Inl e | Inr (o2, s2) \<Rightarrow> Inr (o1 @ o2, s2)))"
proof (induction a arbitrary: s)
  case Nil
  then show ?case by (auto split: sum.splits)
next
  case (Cons x a)
  then show ?case by (cases x) (auto split: sum.splits prod.splits)
qed

lemma after_append:
  assumes "queue_ok s"
  shows "after s (a @ b) = after (after s a) b"
proof -
  obtain o1 s1 where 1: "exec s a = Inr (o1, s1)" "queue_ok s1" using exec_total[OF assms] by blast
  obtain o2 s2 where 2: "exec s1 b = Inr (o2, s2)" using exec_total[OF 1(2)] by blast
  show ?thesis using 1 2 by (simp add: after_def exec_append)
qed

lemma after_enqueue:
  assumes "queue_ok s"
  shows "enqueue s i b = Inr (after s [OpEnqueue i b])"
proof -
  obtain s1 where "enqueue s i b = Inr s1" using enqueue_spec[OF assms, of i b] by blast
  then show ?thesis by (simp add: after_def)
qed

lemma after_ok: "queue_ok s \<Longrightarrow> queue_ok (after s ops)"
  using exec_total[of s ops] by (auto simp: after_def)

lemma prio_bounded_newQueue: "prio_bounded newQueue"
  by (simp add: prio_bounded_def prio_of_def newQueue_eq)

lemma reachable_any_counter: "reachable (newQueue\<lparr>currentPriority := c\<rparr>)"
proof (rule word_induct[where P = "\<lambda>c. reachable (newQueue\<lparr>currentPriority := c\<rparr>)"])
  have "newQueue\<lparr>currentPriority := 0\<rparr> = newQueue" by (simp add: newQueue_eq)
  then show "reachable (newQueue\<lparr>currentPriority := 0\<rparr>)" using reachable.init by simp
next
  fix n :: uint64
  assume r: "reachable (newQueue\<lparr>currentPriority := n\<rparr>)"
  have "enqueue (newQueue\<lparr>currentPriority := n\<rparr>) [] [] = Inr (newQueue\<lparr>currentPriority := 1 + n\<rparr>)"
    by (simp add: enqueue_def Let_def add.commute)
  then show "reachable (newQueue\<lparr>currentPriority := 1 + n\<rparr>)" using reachable.enq[OF r] by blast
qed










section \<open>The claims\<close>

text \<open>
  Claim C8. Starting from an empty queue, the calls
  \<^verbatim>\<open>enqueue(["/contact","/support"], ["/about","/home","/imprint"])\<close>, \<^verbatim>\<open>pop\<close>,
  \<^verbatim>\<open>enqueue(["/imprint","/contact"], ["/about","/home","/support"])\<close> give
  \<^verbatim>\<open>/contact\<close> as the first pop, then the pops \<^verbatim>\<open>/support\<close>, \<^verbatim>\<open>/contact\<close>,
  \<^verbatim>\<open>/imprint\<close>, \<^verbatim>\<open>/about\<close>, \<^verbatim>\<open>/home\<close> in that order, and then the queue is empty
  (the last pop returns nil). No call panics.
\<close>

theorem interleaved_scenario:
  "map_sum id fst
     (exec newQueue
        [OpEnqueue [''/contact'', ''/support''] [''/about'', ''/home'', ''/imprint''],
         OpPop,
         OpEnqueue [''/imprint'', ''/contact''] [''/about'', ''/home'', ''/support''],
         OpPop, OpPop, OpPop, OpPop, OpPop, OpPop]) =
   Inr [Some ''/contact'', Some ''/support'', Some ''/contact'', Some ''/imprint'',
        Some ''/about'', Some ''/home'', None]"
  by code_simp



text \<open>
  Claim C2. A key that is queued with a nonzero priority keeps that priority through
  any \<^verbatim>\<open>enqueue\<close>, whichever list names it, and through any sequence of calls that
  does not pop it. The only change an \<^verbatim>\<open>enqueue\<close> makes to the priority of a queued
  key is from 0 to the nonzero generation of that call, for a key of its invalidated
  list; after it the priority is nonzero, so it happens once in the life of an entry.
\<close>

theorem priority_fixed_once_nonzero:
  assumes "reachable s" and "prio_of s k = Some p"
  shows "(\<exists>s'. enqueue s invalidated background = Inr s' \<and>
              (prio_of s' k = Some p \<or>
               p = 0 \<and> k \<in> set invalidated \<and> currentPriority s' \<noteq> 0 \<and>
               prio_of s' k = Some (currentPriority s')) \<and>
              (p \<noteq> 0 \<longrightarrow> prio_of s' k = Some p)) \<and>
         (p \<noteq> 0 \<longrightarrow> Some k \<notin> set (popped s ops) \<longrightarrow> prio_of (after s ops) k = Some p)"
proof -
  have ok: "queue_ok s" using assms(1) by (rule reachable_ok)
  obtain s' where s': "enqueue s invalidated background = Inr s'"
    "currentPriority s' = currentPriority s + 1"
    "\<And>k. prio_of s' k =
              (let m1 = (if k \<in> set invalidated then settle (currentPriority s + 1) (prio_of s k) else prio_of s k)
               in if k \<in> set background then settle 0 m1 else m1)"
    using enqueue_spec[OF ok, of invalidated background] by blast
  have 1: "prio_of s' k = Some p \<or>
           p = 0 \<and> k \<in> set invalidated \<and> currentPriority s' \<noteq> 0 \<and>
           prio_of s' k = Some (currentPriority s')"
    using s'(3)[of k] assms(2) s'(2) by (auto simp: Let_def)
  have 2: "p \<noteq> 0 \<longrightarrow> prio_of s' k = Some p"
    using s'(3)[of k] assms(2) by (auto simp: Let_def)
  have 3: "p \<noteq> 0 \<longrightarrow> Some k \<notin> set (popped s ops) \<longrightarrow> prio_of (after s ops) k = Some p"
    using exec_keep[OF ok assms(2) _ exec_after[OF ok, of ops]] by blast
  show ?thesis using s'(1) 1 2 3 by blast
qed

theorem priority_fixed_once_nonzero_witness:
  "reachable (after newQueue [OpEnqueue [''/contact'', ''/about''] [''/home'']]) \<and>
   prio_of (after newQueue [OpEnqueue [''/contact'', ''/about''] [''/home'']]) ''/contact'' = Some 1 \<and>
   (1 :: uint64) \<noteq> 0 \<and>
   Some ''/contact'' \<notin> set (popped (after newQueue [OpEnqueue [''/contact'', ''/about''] [''/home'']])
                               [OpEnqueue [''/home''] [''/contact''], OpPop]) \<and>
   (\<exists>s'. enqueue (after newQueue [OpEnqueue [''/contact'', ''/about''] [''/home'']])
             [''/contact'', ''/home''] [''/contact''] = Inr s' \<and>
         prio_of s' ''/contact'' = Some 1) \<and>
   prio_of (after (after newQueue [OpEnqueue [''/contact'', ''/about''] [''/home'']])
              [OpEnqueue [''/home''] [''/contact''], OpPop]) ''/contact'' = Some 1"
proof -
  have r: "reachable (after newQueue [OpEnqueue [''/contact'', ''/about''] [''/home'']])"
    by (rule reachable_after[OF reachable.init])
  have p: "prio_of (after newQueue [OpEnqueue [''/contact'', ''/about''] [''/home'']]) ''/contact'' = Some 1"
    by code_simp
  have n: "Some ''/contact'' \<notin> set (popped (after newQueue [OpEnqueue [''/contact'', ''/about''] [''/home'']])
                               [OpEnqueue [''/home''] [''/contact''], OpPop])"
    by code_simp
  have z: "(1 :: uint64) \<noteq> 0" by simp
  show ?thesis
    using priority_fixed_once_nonzero[OF r p, of "[''/contact'', ''/home'']" "[''/contact'']"
        "[OpEnqueue [''/home''] [''/contact''], OpPop]"] r p n z
    by blast
qed

text \<open>
  Claim C1. After every sequence of \<^verbatim>\<open>enqueue\<close> and \<^verbatim>\<open>pop\<close> calls (none of which
  panics) the keys of the live entries are pairwise distinct and are exactly the keys of
  the key index. \<^verbatim>\<open>_addOrUpdate\<close> adds an entry for a key only when the key index has
  none, and leaves the entries' keys as they are otherwise; a \<^verbatim>\<open>pop\<close> that returns a
  key removes exactly that entry, after which the key is neither among the entries nor
  in the key index (so that a later \<^verbatim>\<open>enqueue\<close> inserts it anew).
\<close>

theorem unique_keys:
  assumes "reachable s"
  shows "(\<exists>out s'. exec s ops = Inr (out, s') \<and> distinct (keys s') \<and>
                   set (keys s') = dom (pathIdx s')) \<and>
         (\<exists>s'. addOrUpdate s rp prio = Inr s' \<and>
               mset (keys s') =
                 (if pathIdx s rp = None then add_mset rp (mset (keys s)) else mset (keys s))) \<and>
         (\<forall>k s'. pop s = (Some k, s') \<longrightarrow>
               mset (keys s) = add_mset k (mset (keys s')) \<and> k \<notin> set (keys s') \<and>
               pathIdx s' k = None)"
proof -
  have ok: "queue_ok s" using assms by (rule reachable_ok)
  obtain out s' where e: "exec s ops = Inr (out, s')" "queue_ok s'"
    using exec_total[OF ok, of ops] by blast
  have 1: "\<exists>out s'. exec s ops = Inr (out, s') \<and> distinct (keys s') \<and>
                   set (keys s') = dom (pathIdx s')"
    using e queue_ok_distinct_keys[OF e(2)] queue_ok_dom[OF e(2)] by auto
  have 2: "\<exists>s'. addOrUpdate s rp prio = Inr s' \<and>
               mset (keys s') =
                 (if pathIdx s rp = None then add_mset rp (mset (keys s)) else mset (keys s))"
    using addOrUpdate_spec[OF ok, of rp prio] by blast
  have 3: "mset (keys s) = add_mset k (mset (keys s')) \<and> k \<notin> set (keys s') \<and> pathIdx s' k = None"
    if p: "pop s = (Some k, s')" for k s'
  proof -
    have ne: "q s \<noteq> []" using p pop_empty[of s] by auto
    have m: "mset (keys s) = add_mset k (mset (keys s'))" and ok': "queue_ok s'"
      using pop_spec[OF ok ne] p by auto
    have "distinct (keys s)" using ok by (rule queue_ok_distinct_keys)
    then have "count (mset (keys s)) k \<le> 1" by (simp add: distinct_count_atmost_1)
    then have "count (mset (keys s')) k = 0" using m by simp
    then have n: "k \<notin> set (keys s')" by (simp add: count_eq_zero_iff)
    then have "pathIdx s' k = None" using queue_ok_dom[OF ok'] by blast
    then show ?thesis using m n by simp
  qed
  show ?thesis using 1 2 3 by blast
qed

theorem unique_keys_witness:
  "reachable (after newQueue [OpEnqueue [''/a'', ''/a''] [''/a'', ''/b'']]) \<and>
   (\<exists>out s'. exec (after newQueue [OpEnqueue [''/a'', ''/a''] [''/a'', ''/b'']])
                 [OpPop, OpEnqueue [''/b''] [''/a'', ''/b'']] = Inr (out, s') \<and>
              distinct (keys s') \<and> set (keys s') = dom (pathIdx s')) \<and>
   (\<exists>s'. addOrUpdate (after newQueue [OpEnqueue [''/a'', ''/a''] [''/a'', ''/b'']]) ''/c'' 7 = Inr s' \<and>
         mset (keys s') =
           add_mset ''/c'' (mset (keys (after newQueue [OpEnqueue [''/a'', ''/a''] [''/a'', ''/b'']])))) \<and>
   fst (pop (after newQueue [OpEnqueue [''/a'', ''/a''] [''/a'', ''/b'']])) = Some ''/a'' \<and>
   mset (keys (after newQueue [OpEnqueue [''/a'', ''/a''] [''/a'', ''/b'']])) =
     add_mset ''/a'' (mset (keys (snd (pop (after newQueue [OpEnqueue [''/a'', ''/a''] [''/a'', ''/b'']]))))) \<and>
   ''/a'' \<notin> set (keys (snd (pop (after newQueue [OpEnqueue [''/a'', ''/a''] [''/a'', ''/b'']])))) \<and>
   pathIdx (snd (pop (after newQueue [OpEnqueue [''/a'', ''/a''] [''/a'', ''/b'']]))) ''/a'' = None"
proof -
  let ?S = "after newQueue [OpEnqueue [''/a'', ''/a''] [''/a'', ''/b'']]"
  have r: "reachable ?S" by (rule reachable_after[OF reachable.init])
  have f: "fst (pop ?S) = Some ''/a''" by code_simp
  then have e: "pop ?S = (Some ''/a'', snd (pop ?S))" by (simp add: prod_eq_iff)
  have a: "pathIdx ?S ''/c'' = None" by code_simp
  show ?thesis
    using unique_keys[OF r, of "[OpPop, OpEnqueue [''/b''] [''/a'', ''/b'']]" "''/c''" 7] r f e a
    by auto
qed

text \<open>
  Claim C3. In every reachable state with a non-empty queue, \<^verbatim>\<open>pop\<close> returns the key of
  a live entry that is least in the composite order: when it has priority 0 every live
  entry has priority 0 (an entry without priority is popped only when no entry with a
  priority is left), among the entries with a nonzero priority it has the lowest number,
  and among the entries of its own priority (zero or not) it has the least key in the
  byte-wise lexicographic order of strings.
\<close>

theorem pop_returns_minimum:
  assumes "reachable s" and "q s \<noteq> []"
  shows "\<exists>k p s'. pop s = (Some k, s') \<and> (k, p) \<in> set (entries s) \<and>
           (\<forall>(k', p') \<in> set (entries s).
              (p = 0 \<longrightarrow> p' = 0) \<and> (p \<noteq> 0 \<and> p' \<noteq> 0 \<longrightarrow> p \<le> p') \<and> (p' = p \<longrightarrow> k \<le> k'))"
proof -
  have ok: "queue_ok s" using assms(1) by (rule reachable_ok)
  obtain k p s' where a: "pop s = (Some k, s')" "prio_of s k = Some p"
    "\<And>k' p'. prio_of s k' = Some p' \<Longrightarrow> (p = 0, p, k) \<le> (p' = 0, p', k')"
    using pop_spec[OF ok assms(2)] by blast
  have "(p = 0 \<longrightarrow> p' = 0) \<and> (p \<noteq> 0 \<and> p' \<noteq> 0 \<longrightarrow> p \<le> p') \<and> (p' = p \<longrightarrow> k \<le> k')"
    if "(k', p') \<in> set (entries s)" for k' p'
  proof -
    have "(p = 0, p, k) \<le> (p' = 0, p', k')" using a(3) that entries_prio_of[OF ok] by blast
    then show ?thesis by (auto simp: less_eq_prod_def less_prod_def)
  qed
  moreover have "(k, p) \<in> set (entries s)" using a(2) entries_prio_of[OF ok] by blast
  ultimately show ?thesis using a(1) by blast
qed

theorem pop_returns_minimum_witness:
  "reachable (after newQueue [OpEnqueue [''/support''] [''/about'', ''/home'']]) \<and>
   q (after newQueue [OpEnqueue [''/support''] [''/about'', ''/home'']]) \<noteq> [] \<and>
   (\<exists>k p s'. pop (after newQueue [OpEnqueue [''/support''] [''/about'', ''/home'']]) = (Some k, s') \<and>
           (k, p) \<in> set (entries (after newQueue [OpEnqueue [''/support''] [''/about'', ''/home'']])) \<and>
           (\<forall>(k', p') \<in> set (entries (after newQueue [OpEnqueue [''/support''] [''/about'', ''/home'']])).
              (p = 0 \<longrightarrow> p' = 0) \<and> (p \<noteq> 0 \<and> p' \<noteq> 0 \<longrightarrow> p \<le> p') \<and> (p' = p \<longrightarrow> k \<le> k')))"
proof -
  have r: "reachable (after newQueue [OpEnqueue [''/support''] [''/about'', ''/home'']])"
    by (rule reachable_after[OF reachable.init])
  have n: "q (after newQueue [OpEnqueue [''/support''] [''/about'', ''/home'']]) \<noteq> []"
    by code_simp
  show ?thesis
    by (rule conjI[OF r conjI[OF n pop_returns_minimum[OF r n]]])
qed

text \<open>
  Claim C10, as amended. In every reachable state, one \<^verbatim>\<open>enqueue\<close> call gives the same
  result (the same state, store and key index included) as the call with each list
  deduplicated, every key kept at its first occurrence, and also as that call with the
  keys of the invalidated list left out of the background list: an occurrence of a key
  after its first changes nothing. The invalidated list is processed first, so a key of
  the invalidated list, whether the background list names it too or not, is treated as
  an invalidated key: when it was not queued, or queued with priority 0, it gets the
  generation of the call; when it was queued with a nonzero priority it keeps that
  priority; and unless the \<^verbatim>\<open>uint64\<close> counter stood at \<open>2^64 - 1\<close> before the call, so
  that the generation of the call wraps to 0, its priority after the call is nonzero.
  As the claim is written it fails where the counter wraps: there a key named in both
  lists ends with priority 0. It also fails for a key that is queued with a nonzero
  priority: that key keeps its priority and does not get the generation of the call.
\<close>

theorem repeated_keys_have_no_effect:
  assumes "reachable s"
  shows "enqueue s invalidated background = enqueue s (dedup invalidated) (dedup background) \<and>
         enqueue s invalidated background =
           enqueue s (dedup invalidated) (filter (\<lambda>k. k \<notin> set invalidated) (dedup background)) \<and>
         (\<exists>s'. enqueue s invalidated background = Inr s' \<and>
               currentPriority s' = currentPriority s + 1 \<and>
               (\<forall>k. k \<in> set invalidated \<longrightarrow>
                    (prio_of s k = None \<or> prio_of s k = Some 0 \<longrightarrow>
                       prio_of s' k = Some (currentPriority s')) \<and>
                    (\<forall>p. prio_of s k = Some p \<longrightarrow> p \<noteq> 0 \<longrightarrow> prio_of s' k = Some p) \<and>
                    (currentPriority s \<noteq> - 1 \<longrightarrow> (\<exists>p. prio_of s' k = Some p \<and> p \<noteq> 0))))"
proof -
  have ok: "queue_ok s" using assms by (rule reachable_ok)
  define s1 where "s1 = s\<lparr>currentPriority := currentPriority s + 1\<rparr>"
  have ok1: "queue_ok s1"
    using ok heap_ok_cong[of s1 s] by (simp add: queue_ok_def s1_def)
  have c1: "currentPriority s1 = currentPriority s + 1" by (simp add: s1_def)
  obtain s2 where s2: "addAll s1 invalidated (currentPriority s + 1) = Inr s2" "queue_ok s2"
    "\<And>k. prio_of s2 k = (if k \<in> set invalidated then settle (currentPriority s + 1) (prio_of s1 k) else prio_of s1 k)"
    using addAll_spec[OF ok1, of invalidated "currentPriority s + 1"] by blast
  have d1: "addAll s1 (dedup invalidated) (currentPriority s + 1) = Inr s2"
    using addAll_dedup[OF ok1, of invalidated] s2(1) by simp
  have st: "\<forall>k\<in>set invalidated. settled s2 k 0"
  proof
    fix k assume "k \<in> set invalidated"
    then show "settled s2 k 0" using s2(3)[of k] by (cases "prio_of s1 k") (auto simp: settled_def)
  qed
  have "addAll s2 background 0 = addAll s2 (dedup background) 0"
    using addAll_dedup[OF s2(2)] .
  moreover have "addAll s2 (dedup background) 0 =
                 addAll s2 (filter (\<lambda>k. k \<notin> set invalidated) (dedup background)) 0"
    using addAll_skip[OF s2(2) st] .
  ultimately have 1: "enqueue s invalidated background = enqueue s (dedup invalidated) (dedup background)"
    and 2: "enqueue s invalidated background =
           enqueue s (dedup invalidated) (filter (\<lambda>k. k \<notin> set invalidated) (dedup background))"
    using s2(1) d1 c1 by (simp_all add: enqueue_def Let_def s1_def[symmetric])
  obtain s' where s': "enqueue s invalidated background = Inr s'"
    "currentPriority s' = currentPriority s + 1"
    "\<And>k. prio_of s' k =
              (let m1 = (if k \<in> set invalidated then settle (currentPriority s + 1) (prio_of s k) else prio_of s k)
               in if k \<in> set background then settle 0 m1 else m1)"
    using enqueue_spec[OF ok, of invalidated background] by blast
  have g: "currentPriority s \<noteq> - 1 \<Longrightarrow> currentPriority s + 1 \<noteq> 0"
    by (simp add: eq_neg_iff_add_eq_0)
  have 3: "(prio_of s k = None \<or> prio_of s k = Some 0 \<longrightarrow> prio_of s' k = Some (currentPriority s')) \<and>
           (\<forall>p. prio_of s k = Some p \<longrightarrow> p \<noteq> 0 \<longrightarrow> prio_of s' k = Some p) \<and>
           (currentPriority s \<noteq> - 1 \<longrightarrow> (\<exists>p. prio_of s' k = Some p \<and> p \<noteq> 0))"
    if "k \<in> set invalidated" for k
    using that s'(3)[of k] s'(2) g by (cases "prio_of s k") (auto simp: Let_def)
  show ?thesis using 1 2 3 s'(1,2) by blast
qed

theorem repeated_keys_have_no_effect_witness:
  "reachable (after newQueue [OpEnqueue [''/c''] [''/d'']]) \<and>
   currentPriority (after newQueue [OpEnqueue [''/c''] [''/d'']]) \<noteq> - 1 \<and>
   ''/b'' \<in> set [''/a'', ''/b'', ''/a'', ''/d''] \<and> ''/b'' \<in> set [''/b'', ''/c'', ''/b'', ''/e'', ''/e''] \<and>
   prio_of (after newQueue [OpEnqueue [''/c''] [''/d'']]) ''/b'' = None \<and>
   enqueue (after newQueue [OpEnqueue [''/c''] [''/d'']])
       [''/a'', ''/b'', ''/a'', ''/d''] [''/b'', ''/c'', ''/b'', ''/e'', ''/e''] =
     enqueue (after newQueue [OpEnqueue [''/c''] [''/d'']])
       (dedup [''/a'', ''/b'', ''/a'', ''/d'']) (dedup [''/b'', ''/c'', ''/b'', ''/e'', ''/e'']) \<and>
   enqueue (after newQueue [OpEnqueue [''/c''] [''/d'']])
       [''/a'', ''/b'', ''/a'', ''/d''] [''/b'', ''/c'', ''/b'', ''/e'', ''/e''] =
     enqueue (after newQueue [OpEnqueue [''/c''] [''/d'']])
       (dedup [''/a'', ''/b'', ''/a'', ''/d''])
       (filter (\<lambda>k. k \<notin> set [''/a'', ''/b'', ''/a'', ''/d'']) (dedup [''/b'', ''/c'', ''/b'', ''/e'', ''/e''])) \<and>
   (\<exists>s'. enqueue (after newQueue [OpEnqueue [''/c''] [''/d'']])
             [''/a'', ''/b'', ''/a'', ''/d''] [''/b'', ''/c'', ''/b'', ''/e'', ''/e''] = Inr s' \<and>
         currentPriority s' = currentPriority (after newQueue [OpEnqueue [''/c''] [''/d'']]) + 1 \<and>
         prio_of s' ''/b'' = Some (currentPriority s') \<and>
         (\<exists>p. prio_of s' ''/b'' = Some p \<and> p \<noteq> 0))"
proof -
  let ?S = "after newQueue [OpEnqueue [''/c''] [''/d'']]"
  have r: "reachable ?S" by (rule reachable_after[OF reachable.init])
  have a: "prio_of ?S ''/b'' = None" by code_simp
  have c: "currentPriority ?S \<noteq> - 1" by code_simp
  have m: "''/b'' \<in> set [''/a'', ''/b'', ''/a'', ''/d'']" "''/b'' \<in> set [''/b'', ''/c'', ''/b'', ''/e'', ''/e'']"
    by simp_all
  show ?thesis
    using repeated_keys_have_no_effect[OF r, of "[''/a'', ''/b'', ''/a'', ''/d'']"
        "[''/b'', ''/c'', ''/b'', ''/e'', ''/e'']"] r a c m
    by blast
qed

theorem repeated_keys_counterexample:
  "reachable (newQueue\<lparr>currentPriority := - 1\<rparr>) \<and>
   ''/a'' \<in> set [''/a''] \<and>
   prio_of (newQueue\<lparr>currentPriority := - 1\<rparr>) ''/a'' = None \<and>
   prio_of (after (newQueue\<lparr>currentPriority := - 1\<rparr>) [OpEnqueue [''/a''] [''/a'']]) ''/a'' = Some 0 \<and>
   currentPriority (after (newQueue\<lparr>currentPriority := - 1\<rparr>) [OpEnqueue [''/a''] [''/a'']]) = 0 \<and>
   reachable (after newQueue [OpEnqueue [''/a''] []]) \<and>
   prio_of (after newQueue [OpEnqueue [''/a''] []]) ''/a'' = Some 1 \<and>
   prio_of (after (after newQueue [OpEnqueue [''/a''] []]) [OpEnqueue [''/a''] [''/a'']]) ''/a'' = Some 1 \<and>
   currentPriority (after (after newQueue [OpEnqueue [''/a''] []]) [OpEnqueue [''/a''] [''/a'']]) = 2"
proof -
  have r: "reachable (newQueue\<lparr>currentPriority := - 1\<rparr>)" by (rule reachable_any_counter)
  have r2: "reachable (after newQueue [OpEnqueue [''/a''] []])"
    by (rule reachable_after[OF reachable.init])
  have 1: "prio_of (newQueue\<lparr>currentPriority := - 1\<rparr>) ''/a'' = None" by code_simp
  have 2: "prio_of (after (newQueue\<lparr>currentPriority := - 1\<rparr>) [OpEnqueue [''/a''] [''/a'']]) ''/a'' = Some 0"
    by code_simp
  have 3: "currentPriority (after (newQueue\<lparr>currentPriority := - 1\<rparr>) [OpEnqueue [''/a''] [''/a'']]) = 0"
    by code_simp
  have 4: "prio_of (after newQueue [OpEnqueue [''/a''] []]) ''/a'' = Some 1" by code_simp
  have 5: "prio_of (after (after newQueue [OpEnqueue [''/a''] []]) [OpEnqueue [''/a''] [''/a'']]) ''/a'' = Some 1"
    by code_simp
  have 6: "currentPriority (after (after newQueue [OpEnqueue [''/a''] []]) [OpEnqueue [''/a''] [''/a'']]) = 2"
    by code_simp
  show ?thesis using r r2 1 2 3 4 5 6 by simp
qed

text \<open>
  Claim C4, as amended. On a queue made by \<^verbatim>\<open>newQueue\<close>, take an \<^verbatim>\<open>enqueue\<close> call N,
  any calls \<open>mid\<close> after it and a later \<^verbatim>\<open>enqueue\<close> call M, with fewer than \<open>2^64\<close>
  \<^verbatim>\<open>enqueue\<close> calls up to and including M (the \<^verbatim>\<open>uint64\<close> generation counter has not
  wrapped around). Let \<open>x\<close> be in the invalidated list of N, and \<open>y\<close> in the
  invalidated list of M and, when M is called, not queued or queued with priority 0, so
  that M gives \<open>y\<close> its nonzero priority. Then whenever \<open>y\<close> is popped after M,
  \<open>x\<close> has been popped before it: between N and M, or after M and before \<open>y\<close>. A key
  of M's invalidated list that is queued with a nonzero priority when M is called keeps
  that priority. As the claim is written, without the bound on the number of calls, it
  fails: the counterexample starts from a queue whose counter is \<open>2^64 - 2\<close>, a state
  that \<^verbatim>\<open>enqueue\<close> calls with empty lists reach; there call N gives \<^verbatim>\<open>/a\<close> the priority
  \<open>2^64 - 1\<close>, the counter wraps, a later call M gives \<^verbatim>\<open>/b\<close> the priority 1, and
  \<^verbatim>\<open>/b\<close> pops before \<^verbatim>\<open>/a\<close>.
\<close>

theorem generation_order:
  assumes nowrap: "count_enq pre + count_enq mid + 2 < 2 ^ 64"
    and s1: "s1 = after newQueue (pre @ [OpEnqueue invN bgN])"
    and s2: "s2 = after s1 mid"
    and s3: "s3 = after s2 [OpEnqueue invM bgM]"
    and x: "x \<in> set invN"
    and y: "y \<in> set invM"
    and ynew: "prio_of s2 y = None \<or> prio_of s2 y = Some 0"
  shows "(Some y \<in> set (popped s3 post) \<longrightarrow>
            Some x \<in> set (popped s1 mid) \<or>
            Some x \<in> set (takeWhile (\<lambda>r. r \<noteq> Some y) (popped s3 post))) \<and>
         (\<forall>z p. z \<in> set invM \<longrightarrow> prio_of s2 z = Some p \<longrightarrow> p \<noteq> 0 \<longrightarrow> prio_of s3 z = Some p)"
proof -
  define s0 where "s0 = after newQueue pre"
  have ok0: "queue_ok s0" unfolding s0_def by (rule after_ok[OF queue_ok_newQueue])
  have e0: "exec newQueue pre = Inr (popped newQueue pre, s0)"
    unfolding s0_def by (rule exec_after[OF queue_ok_newQueue])
  have c0: "unat (currentPriority newQueue) = 0" by (simp add: newQueue_eq)
  have b0: "prio_bounded s0" "unat (currentPriority s0) = count_enq pre"
    using exec_bounded[OF queue_ok_newQueue prio_bounded_newQueue _ e0] nowrap c0 by simp_all
  have s1': "s1 = after s0 [OpEnqueue invN bgN]"
    unfolding s1 s0_def by (rule after_append[OF queue_ok_newQueue])
  have eN: "enqueue s0 invN bgN = Inr s1" unfolding s1' by (rule after_enqueue[OF ok0])
  have nw0: "unat (currentPriority s0) + 1 < 2 ^ 64" using b0(2) nowrap by simp
  have ok1: "queue_ok s1" unfolding s1' by (rule after_ok[OF ok0])
  have b1: "prio_bounded s1" "unat (currentPriority s1) = count_enq pre + 1"
    using enqueue_bounded[OF ok0 b0(1) nw0 eN] b0(2) by simp_all
  have pN: "\<And>k. prio_of s1 k =
              (let m1 = (if k \<in> set invN then settle (currentPriority s0 + 1) (prio_of s0 k) else prio_of s0 k)
               in if k \<in> set bgN then settle 0 m1 else m1)"
    using enqueue_spec[OF ok0, of invN bgN] eN by auto
  have g0: "currentPriority s0 + 1 \<noteq> 0" using unat_succ(2)[OF nw0] .
  obtain px where px: "prio_of s1 x = Some px" "px \<noteq> 0"
    using pN[of x] x g0 by (cases "prio_of s0 x") (auto simp: Let_def)
  have pxle: "unat px \<le> unat (currentPriority s1)"
    using b1(1) px(1) by (auto simp: prio_bounded_def word_le_nat_alt)
  have em: "exec s1 mid = Inr (popped s1 mid, s2)" unfolding s2 by (rule exec_after[OF ok1])
  have ok2: "queue_ok s2" unfolding s2 by (rule after_ok[OF ok1])
  have b2: "prio_bounded s2" "unat (currentPriority s2) = count_enq pre + 1 + count_enq mid"
    using exec_bounded[OF ok1 b1(1) _ em] b1(2) nowrap by simp_all
  have eM: "enqueue s2 invM bgM = Inr s3" unfolding s3 by (rule after_enqueue[OF ok2])
  have ok3: "queue_ok s3" unfolding s3 by (rule after_ok[OF ok2])
  have nw2: "unat (currentPriority s2) + 1 < 2 ^ 64" using b2(2) nowrap by simp
  have pM: "\<And>k. prio_of s3 k =
              (let m1 = (if k \<in> set invM then settle (currentPriority s2 + 1) (prio_of s2 k) else prio_of s2 k)
               in if k \<in> set bgM then settle 0 m1 else m1)"
    using enqueue_spec[OF ok2, of invM bgM] eM by auto
  have g2: "currentPriority s2 + 1 \<noteq> 0" and u2: "unat (currentPriority s2 + 1) = unat (currentPriority s2) + 1"
    using unat_succ[OF nw2] by simp_all
  have py: "prio_of s3 y = Some (currentPriority s2 + 1)"
    using pM[of y] y ynew g2 by (auto simp: Let_def)
  have ep: "exec s3 post = Inr (popped s3 post, after s3 post)" by (rule exec_after[OF ok3])
  have 1: "Some x \<in> set (takeWhile (\<lambda>r. r \<noteq> Some y) (popped s3 post))"
    if yp: "Some y \<in> set (popped s3 post)" and nx: "Some x \<notin> set (popped s1 mid)"
  proof -
    have x2: "prio_of s2 x = Some px" using exec_keep[OF ok1 px em nx] .
    have x3: "prio_of s3 x = Some px" using pM[of x] x2 px(2) by (simp add: Let_def)
    have "unat px < unat (currentPriority s2 + 1)" using pxle b1(2) b2(2) u2 by simp
    then have lt: "px < currentPriority s2 + 1" by (simp add: word_less_nat_alt)
    show ?thesis using pops_in_order[OF ok3 x3 py px(2) lt ep yp] .
  qed
  have 2: "\<forall>z p. z \<in> set invM \<longrightarrow> prio_of s2 z = Some p \<longrightarrow> p \<noteq> 0 \<longrightarrow> prio_of s3 z = Some p"
    using pM by (simp add: Let_def)
  show ?thesis using 1 2 by blast
qed

theorem generation_order_witness:
  "count_enq [] + count_enq [OpPop] + 2 < (2 :: nat) ^ 64 \<and>
   ''/support'' \<in> set [''/contact'', ''/support''] \<and>
   ''/imprint'' \<in> set [''/imprint'', ''/contact''] \<and>
   prio_of (after (after newQueue ([] @ [OpEnqueue [''/contact'', ''/support''] [''/about'', ''/imprint'']])) [OpPop])
       ''/imprint'' = Some 0 \<and>
   Some ''/imprint'' \<in> set (popped
       (after (after (after newQueue ([] @ [OpEnqueue [''/contact'', ''/support''] [''/about'', ''/imprint'']])) [OpPop])
          [OpEnqueue [''/imprint'', ''/contact''] [''/about'', ''/support'']])
       [OpPop, OpPop, OpPop, OpPop]) \<and>
   Some ''/support'' \<notin> set (popped
       (after newQueue ([] @ [OpEnqueue [''/contact'', ''/support''] [''/about'', ''/imprint'']])) [OpPop]) \<and>
   Some ''/support'' \<in> set (takeWhile (\<lambda>r. r \<noteq> Some ''/imprint'') (popped
       (after (after (after newQueue ([] @ [OpEnqueue [''/contact'', ''/support''] [''/about'', ''/imprint'']])) [OpPop])
          [OpEnqueue [''/imprint'', ''/contact''] [''/about'', ''/support'']])
       [OpPop, OpPop, OpPop, OpPop]))"
proof -
  let ?s1 = "after newQueue ([] @ [OpEnqueue [''/contact'', ''/support''] [''/about'', ''/imprint'']])"
  let ?s2 = "after ?s1 [OpPop]"
  let ?s3 = "after ?s2 [OpEnqueue [''/imprint'', ''/contact''] [''/about'', ''/support'']]"
  have n: "count_enq [] + count_enq [OpPop] + 2 < (2 :: nat) ^ 64" by simp
  have x: "''/support'' \<in> set [''/contact'', ''/support'']" by simp
  have y: "''/imprint'' \<in> set [''/imprint'', ''/contact'']" by simp
  have p: "prio_of ?s2 ''/imprint'' = Some 0" by code_simp
  have yp: "Some ''/imprint'' \<in> set (popped ?s3 [OpPop, OpPop, OpPop, OpPop])" by code_simp
  have nx: "Some ''/support'' \<notin> set (popped ?s1 [OpPop])" by code_simp
  show ?thesis
    using generation_order[where post = "[OpPop, OpPop, OpPop, OpPop]", OF n refl refl refl x y disjI2[OF p]]
      n x y p yp nx
    by blast
qed

theorem generation_order_counterexample:
  "reachable (newQueue\<lparr>currentPriority := - 2\<rparr>) \<and>
   ''/a'' \<in> set [''/a''] \<and> ''/b'' \<in> set [''/b''] \<and>
   prio_of (after (newQueue\<lparr>currentPriority := - 2\<rparr>) [OpEnqueue [''/a''] [], OpEnqueue [] []]) ''/b'' = None \<and>
   prio_of (after (newQueue\<lparr>currentPriority := - 2\<rparr>)
              [OpEnqueue [''/a''] [], OpEnqueue [] [], OpEnqueue [''/b''] []]) ''/b'' = Some 1 \<and>
   prio_of (after (newQueue\<lparr>currentPriority := - 2\<rparr>)
              [OpEnqueue [''/a''] [], OpEnqueue [] [], OpEnqueue [''/b''] []]) ''/a'' = Some (- 1) \<and>
   popped (after (newQueue\<lparr>currentPriority := - 2\<rparr>) [OpEnqueue [''/a''] []]) [OpEnqueue [] []] = [] \<and>
   popped (after (newQueue\<lparr>currentPriority := - 2\<rparr>)
             [OpEnqueue [''/a''] [], OpEnqueue [] [], OpEnqueue [''/b''] []]) [OpPop, OpPop]
     = [Some ''/b'', Some ''/a'']"
proof -
  have r: "reachable (newQueue\<lparr>currentPriority := - 2\<rparr>)" by (rule reachable_any_counter)
  have 1: "prio_of (after (newQueue\<lparr>currentPriority := - 2\<rparr>) [OpEnqueue [''/a''] [], OpEnqueue [] []]) ''/b'' = None"
    by code_simp
  have 2: "prio_of (after (newQueue\<lparr>currentPriority := - 2\<rparr>)
              [OpEnqueue [''/a''] [], OpEnqueue [] [], OpEnqueue [''/b''] []]) ''/b'' = Some 1"
    by code_simp
  have 3: "prio_of (after (newQueue\<lparr>currentPriority := - 2\<rparr>)
              [OpEnqueue [''/a''] [], OpEnqueue [] [], OpEnqueue [''/b''] []]) ''/a'' = Some (- 1)"
    by code_simp
  have 4: "popped (after (newQueue\<lparr>currentPriority := - 2\<rparr>) [OpEnqueue [''/a''] []]) [OpEnqueue [] []] = []"
    by code_simp
  have 5: "popped (after (newQueue\<lparr>currentPriority := - 2\<rparr>)
             [OpEnqueue [''/a''] [], OpEnqueue [] [], OpEnqueue [''/b''] []]) [OpPop, OpPop]
     = [Some ''/b'', Some ''/a'']"
    by code_simp
  show ?thesis using r 1 2 3 4 5 by simp
qed

text \<open>
  Claim C5. When the inventory fetch inside \<^verbatim>\<open>revalidate\<close> fails, \<^verbatim>\<open>revalidate\<close> returns
  that error (wrapped as \<^verbatim>\<open>listing documents: ...\<close>) to its caller and the controller is
  exactly as before the call: the queue with its entries and its generation counter,
  the signal channel and the place where \<^verbatim>\<open>run\<close> stands. Nothing is enqueued and no
  wake signal is sent.
\<close>

theorem failed_fetch_changes_nothing:
  "revalidate c (Inl err) invalidatedDocuments = Inr (Some (''listing documents: '' @ err), c)"
  by (simp add: revalidate_def)

text \<open>
  Claim C6 does not hold of the code. The signal channel is unbuffered, so the send of
  \<^verbatim>\<open>ensureProcessQueue\<close> is taken only while \<^verbatim>\<open>run\<close> is blocked in its receive; at any
  other moment the \<^verbatim>\<open>default\<close> case runs and the wake is dropped, with nothing pending.
  In the interleaving below \<^verbatim>\<open>run\<close> parks, a first \<^verbatim>\<open>revalidate\<close> enqueues \<^verbatim>\<open>/a\<close> and
  wakes it, \<^verbatim>\<open>run\<close> pops and submits \<^verbatim>\<open>/a\<close>, pops again, finds the queue empty and
  leaves its inner loop; before it reaches its receive a second \<^verbatim>\<open>revalidate\<close> enqueues
  \<^verbatim>\<open>/b\<close> and calls \<^verbatim>\<open>ensureProcessQueue\<close>, whose wake is dropped; then \<^verbatim>\<open>run\<close> parks.
  At the end \<^verbatim>\<open>run\<close> is blocked on the open channel, it has no further step, and
  \<^verbatim>\<open>/b\<close> is still in the queue: no further drain pass is attempted.
\<close>

theorem wake_lost_before_park:
  "map_option (map_sum id run)
     (fireAll newController
        [EvRun, EvEnqueue [''/a''] [], EvSignal, EvRun, EvRun, EvRun, EvRun, EvRun,
         EvEnqueue [''/b''] [], EvSignal, EvRun]) = Some (Inr Parked) \<and>
   map_option (map_sum id (\<lambda>c. keys (queue c)))
     (fireAll newController
        [EvRun, EvEnqueue [''/a''] [], EvSignal, EvRun, EvRun, EvRun, EvRun, EvRun,
         EvEnqueue [''/b''] [], EvSignal, EvRun]) = Some (Inr [''/b'']) \<and>
   map_option (map_sum id sig)
     (fireAll newController
        [EvRun, EvEnqueue [''/a''] [], EvSignal, EvRun, EvRun, EvRun, EvRun, EvRun,
         EvEnqueue [''/b''] [], EvSignal, EvRun]) = Some (Inr Open) \<and>
   fireAll newController
        [EvRun, EvEnqueue [''/a''] [], EvSignal, EvRun, EvRun, EvRun, EvRun, EvRun,
         EvEnqueue [''/b''] [], EvSignal, EvRun, EvRun] = None"
  by code_simp




end
